theory Spec2Isabelle
  imports Complex_Main "HOL-Library.Multiset"
begin

section \<open>The jump planner of \<^verbatim>\<open>tsp_3d_plot.py\<close>\<close>

text \<open>
  The development embeds the route engine of \<^verbatim>\<open>tsp_3d_plot.py\<close>: the class
  \<^verbatim>\<open>System\<close> with \<^verbatim>\<open>distance_to\<close> and \<^verbatim>\<open>jumps_to\<close>, and the functions
  \<^verbatim>\<open>total_cost\<close>, \<^verbatim>\<open>nearest_neighbor\<close>, \<^verbatim>\<open>two_opt\<close> and \<^verbatim>\<open>solve\<close>.

  Conventions of the embedding:
  \<^item> Python floats are read as real numbers: \<^verbatim>\<open>math.hypot\<close> is the exact Euclidean norm,
    \<^verbatim>\<open>1e-6\<close> is \<open>1 / 10 ^ 6\<close>, sums and quotients are exact. Rounding, infinities and
    NaN of IEEE doubles are not modelled.
  \<^item> Python integers are \<open>int\<close>; list positions and lengths are \<open>nat\<close>.
  \<^item> A \<^verbatim>\<open>System\<close> object has no \<^verbatim>\<open>__eq__\<close> and no \<^verbatim>\<open>__hash__\<close>: Python compares it by
    reference. The field \<open>ident\<close> stands for the reference, so two objects with the same
    name and coordinates are different values, and equal values are the same object.
  \<^item> The only exception the engine can raise on its own is \<^verbatim>\<open>ZeroDivisionError\<close>, from
    \<^verbatim>\<open>d / max_range\<close> with \<^verbatim>\<open>max_range == 0\<close>. Functions that can raise return an
    \<open>option\<close>, with \<open>None\<close> for the exception.
  \<^item> \<^verbatim>\<open>nearest_neighbor\<close> iterates over a Python \<^verbatim>\<open>set\<close>, whose order the language leaves
    open. The parameter \<open>slot\<close> gives every object its position in the hash table; the
    set is iterated by increasing slot. Theorems hold for every \<open>slot\<close>.
\<close>

subsection \<open>class System\<close>

record System =
  ident :: nat
  sys_name :: string
  sys_x :: real
  sys_y :: real
  sys_z :: real

text \<open>\<^verbatim>\<open>return math.hypot(self.x - other.x, self.y - other.y, self.z - other.z)\<close>\<close>

definition distance_to :: "System \<Rightarrow> System \<Rightarrow> real" where
  "distance_to self other =
     sqrt ((sys_x self - sys_x other)\<^sup>2 + (sys_y self - sys_y other)\<^sup>2
           + (sys_z self - sys_z other)\<^sup>2)"

text \<open>
  \<^verbatim>\<open>d = self.distance_to(other)\<close>
  \<^verbatim>\<open>return max(1, math.ceil(d / max_range)) if d > 1e-6 else 0\<close>

  The quotient is only evaluated when \<open>d > 1e-6\<close>; there a zero range raises.
\<close>

definition jumps_to :: "System \<Rightarrow> System \<Rightarrow> real \<Rightarrow> int option" where
  "jumps_to self other max_range =
     (let d = distance_to self other in
      if d > 1 / 10 ^ 6
      then (if max_range = 0 then None else Some (max 1 \<lceil>d / max_range\<rceil>))
      else Some 0)"

subsection \<open>total\_cost\<close>

type_synonym cost = "int \<times> int list \<times> real \<times> real list"

text \<open>
  The body of \<^verbatim>\<open>for a, b in zip(path[:-1], path[1:])\<close>, with the four accumulators
  \<^verbatim>\<open>tj\<close>, \<^verbatim>\<open>jumps\<close>, \<^verbatim>\<open>tly\<close>, \<^verbatim>\<open>dists\<close>.
\<close>

fun cost_loop :: "real \<Rightarrow> (System \<times> System) list \<Rightarrow> cost \<Rightarrow> cost option" where
  "cost_loop rng [] acc = Some acc"
| "cost_loop rng ((a, b) # ps) (tj, jumps, tly, dists) =
     (let d = distance_to a b in
      case jumps_to a b rng of
        None \<Rightarrow> None
      | Some j \<Rightarrow> cost_loop rng ps (tj + j, jumps @ [j], tly + d, dists @ [d]))"

definition total_cost :: "System list \<Rightarrow> real \<Rightarrow> bool \<Rightarrow> cost option" where
  "total_cost path rng loop =
     (if length path < 2 then Some (0, [], 0, [])
      else
        case cost_loop rng (zip (butlast path) (tl path)) (0, [], 0, []) of
          None \<Rightarrow> None
        | Some (tj, jumps, tly, dists) \<Rightarrow>
            if loop then
              (let d = distance_to (last path) (hd path) in
               case jumps_to (last path) (hd path) rng of
                 None \<Rightarrow> None
               | Some j \<Rightarrow> Some (tj + j, jumps @ [j], tly + d, dists @ [d]))
            else Some (tj, jumps, tly, dists))"

subsection \<open>nearest\_neighbor\<close>

text \<open>
  \<^verbatim>\<open>min(unvisited, key=lambda s: cur.jumps_to(s, rng))\<close>: the first element, in iteration
  order, whose key is least. The key is computed for every element, so one raising key
  makes \<^verbatim>\<open>min\<close> raise.
\<close>

fun min_scan :: "('a \<Rightarrow> int option) \<Rightarrow> 'a \<Rightarrow> int \<Rightarrow> 'a list \<Rightarrow> 'a option" where
  "min_scan key m mk [] = Some m"
| "min_scan key m mk (s # ss) =
     (case key s of
        None \<Rightarrow> None
      | Some ks \<Rightarrow> if ks < mk then min_scan key s ks ss else min_scan key m mk ss)"

definition min_by :: "('a \<Rightarrow> int option) \<Rightarrow> 'a list \<Rightarrow> 'a option" where
  "min_by key xs =
     (case xs of
        [] \<Rightarrow> None
      | s # ss \<Rightarrow> (case key s of None \<Rightarrow> None | Some ks \<Rightarrow> min_scan key s ks ss))"

lemma min_scan_mem: "min_scan key m mk ss = Some r \<Longrightarrow> r = m \<or> r \<in> set ss"
  by (induction ss arbitrary: m mk) (auto split: option.splits if_splits)

lemma min_by_mem: "min_by key xs = Some r \<Longrightarrow> r \<in> set xs"
  by (auto simp: min_by_def split: list.splits option.splits dest: min_scan_mem)

text \<open>
  The \<^verbatim>\<open>while unvisited:\<close> loop. \<open>unvisited\<close> is the set in its iteration order;
  removing an element leaves the order of the others as it was.
\<close>

function nn_loop :: "real \<Rightarrow> System list \<Rightarrow> System list \<Rightarrow> System \<Rightarrow> System list option" where
  "nn_loop rng unvisited path cur =
     (if unvisited = [] then Some path
      else
        case min_by (\<lambda>s. jumps_to cur s rng) unvisited of
          None \<Rightarrow> None
        | Some nxt \<Rightarrow> nn_loop rng (remove1 nxt unvisited) (path @ [nxt]) nxt)"
  by pat_completeness auto
termination nn_loop
proof (relation "measure (\<lambda>(rng, unvisited, path, cur). length unvisited)")
  show "wf (measure (\<lambda>(rng, unvisited, path, cur). length unvisited))"
    by simp
next
  fix rng :: real and unvisited path :: "System list" and cur nxt :: System
  assume "unvisited \<noteq> []" and "min_by (\<lambda>s. jumps_to cur s rng) unvisited = Some nxt"
  then have "nxt \<in> set unvisited"
    by (simp add: min_by_mem)
  then have "length (remove1 nxt unvisited) < length unvisited"
    using length_pos_if_in_set [of nxt unvisited] by (simp add: length_remove1)
  then show "((rng, remove1 nxt unvisited, path @ [nxt], nxt), (rng, unvisited, path, cur))
               \<in> measure (\<lambda>(rng, unvisited, path, cur). length unvisited)"
    by simp
qed

text \<open>
  \<^verbatim>\<open>unvisited = set(systems) - {start}\<close>, then the loop from \<^verbatim>\<open>path = [start]\<close>, then
  the post-pass that moves \<^verbatim>\<open>fixed_end\<close> to the end. \<^verbatim>\<open>fixed_end\<close> is \<^verbatim>\<open>None\<close> or an
  object, and an object is always true in a condition.
\<close>

definition nearest_neighbor ::
  "(System \<Rightarrow> nat) \<Rightarrow> System list \<Rightarrow> System \<Rightarrow> System option \<Rightarrow> real \<Rightarrow> System list option" where
  "nearest_neighbor slot systems start fixed_end rng =
     (let unvisited = sort_key slot (removeAll start (remdups systems)) in
      case nn_loop rng unvisited [start] start of
        None \<Rightarrow> None
      | Some path \<Rightarrow>
          (case fixed_end of
             None \<Rightarrow> Some path
           | Some fe \<Rightarrow>
               if last path \<noteq> fe
               then Some ((if fe \<in> set path then remove1 fe path else path) @ [fe])
               else Some path))"

subsection \<open>two\_opt\<close>

text \<open>The variables the loops of \<^verbatim>\<open>two_opt\<close> assign.\<close>

record opt_state =
  best :: "System list"
  best_j :: int
  best_ly :: real
  improved :: bool

text \<open>\<^verbatim>\<open>new = best[:i] + best[i:k+1][::-1] + best[k+1:]\<close>\<close>

definition reversal :: "'a list \<Rightarrow> nat \<Rightarrow> nat \<Rightarrow> 'a list" where
  "reversal xs i k = take i xs @ rev (take (k + 1 - i) (drop i xs)) @ drop (k + 1) xs"

text \<open>
  \<^verbatim>\<open>for k in range(i+1, n):\<close> with its body. The loop has no \<^verbatim>\<open>break\<close>: after an
  accepted reversal it goes on with the next \<open>k\<close>, from the new \<^verbatim>\<open>best\<close>.
  Every \<open>k\<close> of the range is at least 2, so the truncated \<open>n - 1\<close> of \<open>nat\<close> decides
  \<^verbatim>\<open>k == n-1\<close> as Python does.
\<close>

fun k_loop :: "real \<Rightarrow> bool \<Rightarrow> nat \<Rightarrow> nat \<Rightarrow> nat list \<Rightarrow> opt_state \<Rightarrow> opt_state option" where
  "k_loop rng loop n i [] st = Some st"
| "k_loop rng loop n i (k # ks) st =
     (if loop \<and> (i = 1 \<or> k = n - 1) then k_loop rng loop n i ks st
      else
        (let new = reversal (best st) i k in
         case total_cost new rng loop of
           None \<Rightarrow> None
         | Some (nj, _, nly, _) \<Rightarrow>
             if nj < best_j st \<or> (nj = best_j st \<and> nly < best_ly st)
             then k_loop rng loop n i ks
                    \<lparr>best = new, best_j = nj, best_ly = nly, improved = True\<rparr>
             else k_loop rng loop n i ks st))"

text \<open>
  \<^verbatim>\<open>for i in range(1, n-2):\<close> with the inner loop and \<^verbatim>\<open>if improved: break\<close>, which
  stands after the inner loop.
\<close>

fun i_loop :: "real \<Rightarrow> bool \<Rightarrow> nat \<Rightarrow> nat list \<Rightarrow> opt_state \<Rightarrow> opt_state option" where
  "i_loop rng loop n [] st = Some st"
| "i_loop rng loop n (i # rows) st =
     (case k_loop rng loop n i [i + 1 ..< n] st of
        None \<Rightarrow> None
      | Some st' \<Rightarrow> if improved st' then Some st' else i_loop rng loop n rows st')"

text \<open>
  Notions for the invariants of the loops: the two totals of a route, the order
  \<^verbatim>\<open>nj < best_j or (nj == best_j and nly < best_ly)\<close> of the acceptance test, the
  agreement of \<^verbatim>\<open>best_j\<close>, \<^verbatim>\<open>best_ly\<close> with \<^verbatim>\<open>best\<close>, and a pair \<open>(i, k)\<close> whose reversal
  is skipped or evaluated and not accepted.
\<close>

lemma reversal_mset: "i \<le> Suc k \<Longrightarrow> mset (reversal xs i k) = mset xs"
proof -
  assume ik: "i \<le> Suc k"
  have d: "drop (k + 1) xs = drop (k + 1 - i) (drop i xs)"
    using ik by simp
  have "mset (reversal xs i k)
          = mset (take i xs) + (mset (take (k + 1 - i) (drop i xs)) + mset (drop (k + 1 - i) (drop i xs)))"
    unfolding reversal_def d by simp
  also have "\<dots> = mset (take i xs) + mset (drop i xs)"
    by (metis append_take_drop_id mset_append)
  also have "\<dots> = mset xs"
    by (metis append_take_drop_id mset_append)
  finally show ?thesis .
qed

lemma reversal_take1: "0 < i \<Longrightarrow> take (Suc 0) (reversal xs i k) = take (Suc 0) xs"
  by (cases xs) (auto simp: reversal_def take_Cons')

definition costs :: "real \<Rightarrow> bool \<Rightarrow> System list \<Rightarrow> (int \<times> real) option" where
  "costs rng loop p = map_option (\<lambda>(tj, jumps, tly, dists). (tj, tly)) (total_cost p rng loop)"

definition lex_lt :: "int \<times> real \<Rightarrow> int \<times> real \<Rightarrow> bool" where
  "lex_lt a b = (fst a < fst b \<or> (fst a = fst b \<and> snd a < snd b))"

definition tracked :: "real \<Rightarrow> bool \<Rightarrow> opt_state \<Rightarrow> bool" where
  "tracked rng loop st = (costs rng loop (best st) = Some (best_j st, best_ly st))"

definition no_gain :: "real \<Rightarrow> bool \<Rightarrow> nat \<Rightarrow> opt_state \<Rightarrow> nat \<Rightarrow> nat \<Rightarrow> bool" where
  "no_gain rng loop n st i k =
     ((loop \<and> (i = 1 \<or> k = n - 1)) \<or>
      (\<exists>c. costs rng loop (reversal (best st) i k) = Some c \<and> \<not> lex_lt c (best_j st, best_ly st)))"

lemma lex_lt_trans: "lex_lt a b \<Longrightarrow> lex_lt b c \<Longrightarrow> lex_lt a c"
  by (auto simp: lex_lt_def)

lemma lex_lt_irrefl: "\<not> lex_lt a a"
  by (simp add: lex_lt_def)


definition try_k :: "real \<Rightarrow> bool \<Rightarrow> nat \<Rightarrow> nat \<Rightarrow> nat \<Rightarrow> opt_state \<Rightarrow> opt_state option" where
  "try_k rng loop n i k st =
     (if loop \<and> (i = 1 \<or> k = n - 1) then Some st
      else
        case total_cost (reversal (best st) i k) rng loop of
          None \<Rightarrow> None
        | Some (nj, _, nly, _) \<Rightarrow>
            if nj < best_j st \<or> (nj = best_j st \<and> nly < best_ly st)
            then Some \<lparr>best = reversal (best st) i k, best_j = nj, best_ly = nly, improved = True\<rparr>
            else Some st)"

lemma k_loop_Cons:
  "k_loop rng loop n i (k # ks) st =
     (case try_k rng loop n i k st of None \<Rightarrow> None | Some st1 \<Rightarrow> k_loop rng loop n i ks st1)"
  by (auto simp: try_k_def Let_def split: option.splits)

lemma try_k_step:
  assumes "try_k rng loop n i k st = Some st1" and "i \<le> Suc k"
  shows "st1 = st \<or>
         (improved st1 \<and> mset (best st1) = mset (best st) \<and> tracked rng loop st1 \<and>
          lex_lt (best_j st1, best_ly st1) (best_j st, best_ly st))"
  using assms
  by (auto simp: try_k_def tracked_def costs_def lex_lt_def reversal_mset
           split: if_splits option.splits)

lemma try_k_take1:
  "try_k rng loop n i k st = Some st1 \<Longrightarrow> 0 < i \<Longrightarrow> take 1 (best st1) = take 1 (best st)"
  by (auto simp: try_k_def reversal_take1 split: if_splits option.splits)

lemma try_k_no_gain:
  "\<not> improved st \<Longrightarrow>
   (try_k rng loop n i k st = Some st1 \<and> \<not> improved st1) = (st1 = st \<and> no_gain rng loop n st i k)"
  by (auto simp: try_k_def no_gain_def costs_def lex_lt_def split: if_splits option.splits)

lemma try_k_improved: "try_k rng loop n i k st = Some st1 \<Longrightarrow> improved st \<Longrightarrow> improved st1"
  by (auto simp: try_k_def split: if_splits option.splits)

lemma k_loop_step:
  assumes "k_loop rng loop n i ks st = Some st'" and "\<forall>k\<in>set ks. i \<le> Suc k"
  shows "st' = st \<or>
         (improved st' \<and> mset (best st') = mset (best st) \<and> tracked rng loop st' \<and>
          lex_lt (best_j st', best_ly st') (best_j st, best_ly st))"
  using assms
proof (induction ks arbitrary: st)
  case Nil
  then show ?case by simp
next
  case (Cons k ks)
  from Cons.prems(1) obtain st1 where
    one: "try_k rng loop n i k st = Some st1" and run: "k_loop rng loop n i ks st1 = Some st'"
    by (auto simp: k_loop_Cons simp del: k_loop.simps split: option.splits)
  from Cons.prems(2) have ik: "i \<le> Suc k" and rest: "\<forall>k\<in>set ks. i \<le> Suc k"
    by simp_all
  from try_k_step [OF one ik] Cons.IH [OF run rest] show ?case
    by (auto intro: lex_lt_trans)
qed

lemma k_loop_take1:
  "k_loop rng loop n i ks st = Some st' \<Longrightarrow> 0 < i \<Longrightarrow> take 1 (best st') = take 1 (best st)"
proof (induction ks arbitrary: st)
  case Nil
  then show ?case by simp
next
  case (Cons k ks)
  from Cons.prems(1) obtain st1 where
    one: "try_k rng loop n i k st = Some st1" and run: "k_loop rng loop n i ks st1 = Some st'"
    by (auto simp: k_loop_Cons simp del: k_loop.simps split: option.splits)
  from try_k_take1 [OF one Cons.prems(2)] Cons.IH [OF run Cons.prems(2)] show ?case
    by simp
qed

lemma k_loop_improved:
  "k_loop rng loop n i ks st = Some st' \<Longrightarrow> improved st \<Longrightarrow> improved st'"
proof (induction ks arbitrary: st)
  case Nil
  then show ?case by simp
next
  case (Cons k ks)
  from Cons.prems(1) obtain st1 where
    one: "try_k rng loop n i k st = Some st1" and run: "k_loop rng loop n i ks st1 = Some st'"
    by (auto simp: k_loop_Cons simp del: k_loop.simps split: option.splits)
  from try_k_improved [OF one Cons.prems(2)] Cons.IH [OF run] show ?case
    by simp
qed

lemma k_loop_no_gain:
  "\<not> improved st \<Longrightarrow>
   (k_loop rng loop n i ks st = Some st' \<and> \<not> improved st')
     = (st' = st \<and> (\<forall>k\<in>set ks. no_gain rng loop n st i k))"
proof (induction ks)
  case Nil
  then show ?case by auto
next
  case (Cons k ks)
  show ?case
  proof
    assume a: "k_loop rng loop n i (k # ks) st = Some st' \<and> \<not> improved st'"
    then obtain st1 where
      one: "try_k rng loop n i k st = Some st1" and run: "k_loop rng loop n i ks st1 = Some st'"
      by (auto simp: k_loop_Cons simp del: k_loop.simps split: option.splits)
    from a run have "\<not> improved st1"
      using k_loop_improved by blast
    with one Cons.prems have "st1 = st \<and> no_gain rng loop n st i k"
      using try_k_no_gain by blast
    with a run Cons show "st' = st \<and> (\<forall>k\<in>set (k # ks). no_gain rng loop n st i k)"
      by auto
  next
    assume b: "st' = st \<and> (\<forall>k\<in>set (k # ks). no_gain rng loop n st i k)"
    with Cons.prems have "try_k rng loop n i k st = Some st"
      using try_k_no_gain [of st rng loop n i k st] by simp
    moreover from b Cons have "k_loop rng loop n i ks st = Some st"
      by auto
    ultimately show "k_loop rng loop n i (k # ks) st = Some st' \<and> \<not> improved st'"
      using b Cons.prems by (simp add: k_loop_Cons del: k_loop.simps)
  qed
qed

lemma i_loop_step:
  assumes "i_loop rng loop n rows st = Some st'"
  shows "st' = st \<or>
         (improved st' \<and> mset (best st') = mset (best st) \<and> tracked rng loop st' \<and>
          lex_lt (best_j st', best_ly st') (best_j st, best_ly st))"
  using assms
proof (induction rows arbitrary: st)
  case Nil
  then show ?case by simp
next
  case (Cons i rows)
  from Cons.prems obtain st1 where
    row: "k_loop rng loop n i [i + 1 ..< n] st = Some st1" and
    rest: "improved st1 \<and> st' = st1 \<or> \<not> improved st1 \<and> i_loop rng loop n rows st1 = Some st'"
    by (auto split: option.splits if_splits)
  have "\<forall>k\<in>set [i + 1 ..< n]. i \<le> Suc k"
    by simp
  from k_loop_step [OF row this] rest Cons.IH [of st1] show ?case
    by (auto intro: lex_lt_trans)
qed

lemma i_loop_take1:
  "i_loop rng loop n rows st = Some st' \<Longrightarrow> \<forall>i\<in>set rows. 0 < i \<Longrightarrow>
   take 1 (best st') = take 1 (best st)"
proof (induction rows arbitrary: st)
  case Nil
  then show ?case by simp
next
  case (Cons i rows)
  from Cons.prems(1) obtain st1 where
    row: "k_loop rng loop n i [i + 1 ..< n] st = Some st1" and
    rest: "improved st1 \<and> st' = st1 \<or> \<not> improved st1 \<and> i_loop rng loop n rows st1 = Some st'"
    by (auto split: option.splits if_splits)
  from Cons.prems(2) have "0 < i" by simp
  from k_loop_take1 [OF row this] rest Cons.IH [of st1] Cons.prems(2) show ?case
    by auto
qed

lemma i_loop_no_gain:
  "\<not> improved st \<Longrightarrow>
   (i_loop rng loop n rows st = Some st' \<and> \<not> improved st')
     = (st' = st \<and> (\<forall>i\<in>set rows. \<forall>k\<in>set [i + 1 ..< n]. no_gain rng loop n st i k))"
proof (induction rows)
  case Nil
  then show ?case by auto
next
  case (Cons i rows)
  show ?case
  proof
    assume a: "i_loop rng loop n (i # rows) st = Some st' \<and> \<not> improved st'"
    then obtain st1 where
      row: "k_loop rng loop n i [i + 1 ..< n] st = Some st1" and
      ni: "\<not> improved st1" and rest: "i_loop rng loop n rows st1 = Some st'"
      by (auto split: option.splits if_splits)
    from row ni Cons.prems have "st1 = st \<and> (\<forall>k\<in>set [i + 1 ..< n]. no_gain rng loop n st i k)"
      using k_loop_no_gain by blast
    with a rest Cons
    show "st' = st \<and> (\<forall>i\<in>set (i # rows). \<forall>k\<in>set [i + 1 ..< n]. no_gain rng loop n st i k)"
      by auto
  next
    assume b: "st' = st \<and> (\<forall>i\<in>set (i # rows). \<forall>k\<in>set [i + 1 ..< n]. no_gain rng loop n st i k)"
    with Cons.prems have "k_loop rng loop n i [i + 1 ..< n] st = Some st"
      using k_loop_no_gain [of st rng loop n i "[i + 1 ..< n]" st] by simp
    moreover from b Cons have "i_loop rng loop n rows st = Some st"
      by auto
    ultimately show "i_loop rng loop n (i # rows) st = Some st' \<and> \<not> improved st'"
      using b Cons.prems by simp
  qed
qed

text \<open>
  The routes with the elements of \<^verbatim>\<open>best\<close> whose totals are below \<^verbatim>\<open>(best_j, best_ly)\<close>.
  Every pass that accepts a reversal leaves fewer of them, which bounds the number of
  passes.
\<close>

definition lower_routes :: "real \<Rightarrow> bool \<Rightarrow> opt_state \<Rightarrow> System list set" where
  "lower_routes rng loop st =
     {q. mset q = mset (best st) \<and>
         (\<exists>c. costs rng loop q = Some c \<and> lex_lt c (best_j st, best_ly st))}"

lemma finite_lower_routes: "finite (lower_routes rng loop st)"
proof (rule finite_subset)
  show "lower_routes rng loop st \<subseteq> {q. mset q = mset (best st)}"
    by (auto simp: lower_routes_def)
  show "finite {q. mset q = mset (best st)}"
    by (rule mset_eq_finite)
qed

lemma lower_routes_shrink:
  assumes m: "mset (best st') = mset (best st)"
    and t: "tracked rng loop st'"
    and l: "lex_lt (best_j st', best_ly st') (best_j st, best_ly st)"
  shows "card (lower_routes rng loop st') < card (lower_routes rng loop st)"
proof (rule psubset_card_mono [OF finite_lower_routes])
  have sub: "lower_routes rng loop st' \<subseteq> lower_routes rng loop st"
    using m l by (auto simp: lower_routes_def intro: lex_lt_trans)
  have "best st' \<in> lower_routes rng loop st"
    using m t l by (auto simp: lower_routes_def tracked_def)
  moreover have "best st' \<notin> lower_routes rng loop st'"
    using t by (auto simp: lower_routes_def tracked_def lex_lt_irrefl)
  ultimately show "lower_routes rng loop st' \<subset> lower_routes rng loop st"
    using sub by blast
qed

text \<open>
  \<^verbatim>\<open>while improved:\<close> with \<^verbatim>\<open>improved = False\<close> and the pass over \<^verbatim>\<open>range(1, n-2)\<close>.
  For \<open>n < 2\<close> Python's \<^verbatim>\<open>n-2\<close> is negative and the range is empty, as \<open>[1 ..< n - 2]\<close> is.
\<close>

function while_improved :: "real \<Rightarrow> bool \<Rightarrow> nat \<Rightarrow> opt_state \<Rightarrow> opt_state option" where
  "while_improved rng loop n st =
     (if improved st
      then
        (case i_loop rng loop n [1 ..< n - 2] (st\<lparr>improved := False\<rparr>) of
           None \<Rightarrow> None
         | Some st' \<Rightarrow> while_improved rng loop n st')
      else Some st)"
  by pat_completeness auto
termination while_improved
proof (relation "measure (\<lambda>(rng, loop, n, st).
                   if improved st then Suc (card (lower_routes rng loop st)) else 0)")
  show "wf (measure (\<lambda>(rng, loop, n, st).
              if improved st then Suc (card (lower_routes rng loop st)) else 0))"
    by simp
next
  fix rng :: real and loop :: bool and n :: nat and st st' :: opt_state
  assume imp: "improved st"
    and pass: "i_loop rng loop n [1 ..< n - 2] (st\<lparr>improved := False\<rparr>) = Some st'"
  have "(if improved st' then Suc (card (lower_routes rng loop st')) else 0)
          < Suc (card (lower_routes rng loop st))"
  proof (cases "improved st'")
    case False
    then show ?thesis by simp
  next
    case True
    with i_loop_step [OF pass]
    have "mset (best st') = mset (best st)" and "tracked rng loop st'"
      and "lex_lt (best_j st', best_ly st') (best_j st, best_ly st)"
      by auto
    then have "card (lower_routes rng loop st') < card (lower_routes rng loop st)"
      by (rule lower_routes_shrink)
    with True show ?thesis by simp
  qed
  with imp show "((rng, loop, n, st'), (rng, loop, n, st))
                   \<in> measure (\<lambda>(rng, loop, n, st).
                        if improved st then Suc (card (lower_routes rng loop st)) else 0)"
    by simp
qed

declare nn_loop.simps [simp del]
declare while_improved.simps [simp del]

text \<open>
  \<^verbatim>\<open>two_opt\<close> returns \<^verbatim>\<open>best, jumps, j, ly, dists\<close>. \<^verbatim>\<open>best = path[:]\<close> is a copy, which
  is the same list value.
\<close>

definition two_opt ::
  "System list \<Rightarrow> real \<Rightarrow> bool \<Rightarrow> (System list \<times> int list \<times> int \<times> real \<times> real list) option" where
  "two_opt path rng loop =
     (case total_cost path rng loop of
        None \<Rightarrow> None
      | Some (bj, _, bly, _) \<Rightarrow>
          (let n = length path in
           case while_improved rng loop n
                  \<lparr>best = path, best_j = bj, best_ly = bly, improved = True\<rparr> of
             None \<Rightarrow> None
           | Some st \<Rightarrow>
               (case total_cost (best st) rng loop of
                  None \<Rightarrow> None
                | Some (j, jumps, ly, dists) \<Rightarrow> Some (best st, jumps, j, ly, dists))))"

subsection \<open>solve\<close>

text \<open>
  \<^verbatim>\<open>fixed_end = systems[-1] if not loop_back and final_is_last else None\<close>;
  \<^verbatim>\<open>pool\<close> keeps the objects that are not \<^verbatim>\<open>fixed_end\<close> (all of them when it is \<^verbatim>\<open>None\<close>).
  After \<^verbatim>\<open>path.append(path[0])\<close> the element \<^verbatim>\<open>path[-2]\<close> is at position \<open>length - 2\<close>.
\<close>

definition solve ::
  "(System \<Rightarrow> nat) \<Rightarrow> System list \<Rightarrow> real \<Rightarrow> bool \<Rightarrow> bool
     \<Rightarrow> (System list \<times> int list \<times> int \<times> real \<times> real list) option" where
  "solve slot systems max_jump loop_back final_is_last =
     (if length systems < 2 then Some (systems, [], 0, 0, [])
      else
        (let start = hd systems;
             fixed_end = (if \<not> loop_back \<and> final_is_last then Some (last systems) else None);
             pool = filter (\<lambda>s. Some s \<noteq> fixed_end) systems
         in case nearest_neighbor slot pool start fixed_end max_jump of
              None \<Rightarrow> None
            | Some path0 \<Rightarrow>
                (case two_opt path0 max_jump loop_back of
                   None \<Rightarrow> None
                 | Some (path, jumps, tj, tly, dists) \<Rightarrow>
                     if loop_back \<and> hd path \<noteq> last path
                     then
                       (let path' = path @ [hd path];
                            d = distance_to (path' ! (length path' - 2)) (hd path')
                        in case jumps_to (path' ! (length path' - 2)) (hd path') max_jump of
                             None \<Rightarrow> None
                           | Some j \<Rightarrow> Some (path', jumps @ [j], tj, tly, dists @ [d]))
                     else Some (path, jumps, tj, tly, dists))))"

subsection \<open>The engine returns for every range other than zero\<close>

lemma jumps_to_total: "rng \<noteq> 0 \<Longrightarrow> \<exists>j. jumps_to a b rng = Some j"
  by (simp add: jumps_to_def Let_def)

lemma cost_loop_total: "rng \<noteq> 0 \<Longrightarrow> \<exists>c. cost_loop rng ps acc = Some c"
proof (induction ps arbitrary: acc)
  case Nil
  show ?case by (cases acc) simp
next
  case (Cons p ps)
  obtain a b where p: "p = (a, b)" by (cases p)
  obtain tj jumps tly dists where acc: "acc = (tj, jumps, tly, dists)" by (cases acc)
  from jumps_to_total [OF Cons.prems] obtain j where "jumps_to a b rng = Some j" by blast
  with Cons p acc show ?case by (simp add: Let_def)
qed

lemma total_cost_total: "rng \<noteq> 0 \<Longrightarrow> \<exists>c. total_cost p rng loop = Some c"
  using cost_loop_total [of rng "zip (butlast p) (tl p)" "(0, [], 0, [])"]
        jumps_to_total [of rng "last p" "hd p"]
  by (auto simp: total_cost_def Let_def split: option.splits)

lemma try_k_total: "rng \<noteq> 0 \<Longrightarrow> \<exists>st1. try_k rng loop n i k st = Some st1"
  using total_cost_total [of rng "reversal (best st) i k" loop]
  by (auto simp: try_k_def split: option.splits)

lemma k_loop_total: "rng \<noteq> 0 \<Longrightarrow> \<exists>st'. k_loop rng loop n i ks st = Some st'"
proof (induction ks arbitrary: st)
  case Nil
  then show ?case by simp
next
  case (Cons k ks)
  from try_k_total [OF Cons.prems] obtain st1 where "try_k rng loop n i k st = Some st1"
    by blast
  with Cons show ?case
    by (simp add: k_loop_Cons del: k_loop.simps)
qed

lemma i_loop_total: "rng \<noteq> 0 \<Longrightarrow> \<exists>st'. i_loop rng loop n rows st = Some st'"
proof (induction rows arbitrary: st)
  case Nil
  then show ?case by simp
next
  case (Cons i rows)
  from k_loop_total [OF Cons.prems] obtain st1 where
    "k_loop rng loop n i [i + 1 ..< n] st = Some st1"
    by blast
  with Cons show ?case by simp
qed

lemma while_improved_total: "rng \<noteq> 0 \<Longrightarrow> \<exists>st'. while_improved rng loop n st = Some st'"
proof (induction rng loop n st rule: while_improved.induct)
  case (1 rng loop n st)
  show ?case
  proof (cases "improved st")
    case False
    then show ?thesis by (simp add: while_improved.simps)
  next
    case True
    from i_loop_total [OF "1.prems"] obtain st1 where
      pass: "i_loop rng loop n [1 ..< n - 2] (st\<lparr>improved := False\<rparr>) = Some st1"
      by blast
    from "1.IH" [OF True pass "1.prems"] True pass show ?thesis
      by (subst while_improved.simps) simp
  qed
qed

lemma two_opt_total: "rng \<noteq> 0 \<Longrightarrow> \<exists>res. two_opt path rng loop = Some res"
proof -
  assume r: "rng \<noteq> 0"
  from total_cost_total [OF r] obtain bj bjs bly bds where
    c0: "total_cost path rng loop = Some (bj, bjs, bly, bds)"
    by (metis prod_cases4)
  from while_improved_total [OF r] obtain st where
    w: "while_improved rng loop (length path)
          \<lparr>best = path, best_j = bj, best_ly = bly, improved = True\<rparr> = Some st"
    by blast
  from total_cost_total [OF r] obtain j js ly ds where
    c1: "total_cost (best st) rng loop = Some (j, js, ly, ds)"
    by (metis prod_cases4)
  from c0 w c1 show ?thesis
    by (simp add: two_opt_def)
qed

subsection \<open>What the passes of \<^verbatim>\<open>two_opt\<close> leave\<close>

lemma tracked_improved_update [simp]:
  "tracked rng loop (st\<lparr>improved := b\<rparr>) = tracked rng loop st"
  by (simp add: tracked_def)

lemma no_gain_improved_update [simp]:
  "no_gain rng loop n (st\<lparr>improved := b\<rparr>) i k = no_gain rng loop n st i k"
  by (simp add: no_gain_def)

lemma while_improved_result:
  assumes "while_improved rng loop n st = Some st'"
  shows "\<not> improved st' \<and> mset (best st') = mset (best st) \<and>
         take (Suc 0) (best st') = take (Suc 0) (best st) \<and>
         (tracked rng loop st \<longrightarrow> tracked rng loop st') \<and>
         (improved st \<longrightarrow>
            (\<forall>i\<in>set [1 ..< n - 2]. \<forall>k\<in>set [i + 1 ..< n]. no_gain rng loop n st' i k))"
  using assms
proof (induction rng loop n st rule: while_improved.induct)
  case (1 rng loop n st)
  show ?case
  proof (cases "improved st")
    case False
    with "1.prems" show ?thesis by (simp add: while_improved.simps)
  next
    case True
    let ?s0 = "st\<lparr>improved := False\<rparr>"
    from "1.prems" True obtain st1 where
      pass: "i_loop rng loop n [1 ..< n - 2] ?s0 = Some st1" and
      rest: "while_improved rng loop n st1 = Some st'"
      by (subst (asm) while_improved.simps) (auto split: option.splits)
    have t1: "take (Suc 0) (best st1) = take (Suc 0) (best st)"
      using i_loop_take1 [OF pass] by simp
    show ?thesis
    proof (cases "improved st1")
      case i1: True
      from i_loop_step [OF pass] i1
      have m1: "mset (best st1) = mset (best st)" and tr1: "tracked rng loop st1"
        by auto
      from "1.IH" [OF True pass rest] i1 m1 tr1 t1 show ?thesis
        by simp
    next
      case n1: False
      with rest have eq: "st' = st1"
        by (simp add: while_improved.simps)
      from pass n1 have "st1 = ?s0 \<and>
          (\<forall>i\<in>set [1 ..< n - 2]. \<forall>k\<in>set [i + 1 ..< n]. no_gain rng loop n ?s0 i k)"
        using i_loop_no_gain [of ?s0 rng loop n "[1 ..< n - 2]" st1] by simp
      with eq n1 show ?thesis by simp
    qed
  qed
qed

lemma two_opt_SomeD:
  assumes "two_opt path rng loop = Some (r, js, j, ly, ds)"
  shows "total_cost r rng loop = Some (j, js, ly, ds)"
    and "mset r = mset path"
    and "take (Suc 0) r = take (Suc 0) path"
    and "\<forall>i\<in>set [1 ..< length path - 2]. \<forall>k\<in>set [i + 1 ..< length path].
           no_gain rng loop (length path) \<lparr>best = r, best_j = j, best_ly = ly, improved = False\<rparr> i k"
proof -
  from assms obtain bj bjs bly bds st where
    c0: "total_cost path rng loop = Some (bj, bjs, bly, bds)" and
    w: "while_improved rng loop (length path)
          \<lparr>best = path, best_j = bj, best_ly = bly, improved = True\<rparr> = Some st" and
    r: "r = best st" and
    c1: "total_cost (best st) rng loop = Some (j, js, ly, ds)"
    by (auto simp: two_opt_def Let_def split: option.splits)
  let ?s0 = "\<lparr>best = path, best_j = bj, best_ly = bly, improved = True\<rparr>"
  have "tracked rng loop ?s0"
    by (simp add: tracked_def costs_def c0)
  with while_improved_result [OF w]
  have ni: "\<not> improved st" and m: "mset (best st) = mset path"
    and t: "take (Suc 0) (best st) = take (Suc 0) path"
    and tr: "tracked rng loop st"
    and ng: "\<forall>i\<in>set [1 ..< length path - 2]. \<forall>k\<in>set [i + 1 ..< length path].
               no_gain rng loop (length path) st i k"
    by simp_all
  from tr c1 have "best_j st = j" and "best_ly st = ly"
    by (simp_all add: tracked_def costs_def)
  with r ni have st: "st = \<lparr>best = r, best_j = j, best_ly = ly, improved = False\<rparr>"
    by (cases st) simp
  from c1 r show "total_cost r rng loop = Some (j, js, ly, ds)" by simp
  from m r show "mset r = mset path" by simp
  from t r show "take (Suc 0) r = take (Suc 0) path" by simp
  from ng st show "\<forall>i\<in>set [1 ..< length path - 2]. \<forall>k\<in>set [i + 1 ..< length path].
           no_gain rng loop (length path) \<lparr>best = r, best_j = j, best_ly = ly, improved = False\<rparr> i k"
    by simp
qed

lemma two_opt_fixpoint:
  assumes c: "total_cost r rng loop = Some (j, js, ly, ds)"
    and ng: "\<forall>i\<in>set [1 ..< length r - 2]. \<forall>k\<in>set [i + 1 ..< length r].
           no_gain rng loop (length r) \<lparr>best = r, best_j = j, best_ly = ly, improved = False\<rparr> i k"
  shows "two_opt r rng loop = Some (r, js, j, ly, ds)"
proof -
  let ?s1 = "\<lparr>best = r, best_j = j, best_ly = ly, improved = True\<rparr>"
  let ?s0 = "\<lparr>best = r, best_j = j, best_ly = ly, improved = False\<rparr>"
  have "i_loop rng loop (length r) [1 ..< length r - 2] ?s0 = Some ?s0 \<and> \<not> improved ?s0"
    using ng i_loop_no_gain [of ?s0 rng loop "length r" "[1 ..< length r - 2]" ?s0] by simp
  then have pass: "i_loop rng loop (length r) [1 ..< length r - 2] (?s1\<lparr>improved := False\<rparr>) = Some ?s0"
    by simp
  have stop: "while_improved rng loop (length r) ?s0 = Some ?s0"
    by (simp add: while_improved.simps)
  have "while_improved rng loop (length r) ?s1 = Some ?s0"
    using pass stop by (subst while_improved.simps) simp
  with c show ?thesis
    by (simp add: two_opt_def)
qed

subsection \<open>Points on a line\<close>

text \<open>
  Points on the x axis, for the worked examples: object number \<open>i\<close> at \<open>(c, 0, 0)\<close>.
  Their distances are absolute differences, so the examples evaluate exactly.
\<close>

definition axis_point :: "nat \<Rightarrow> real \<Rightarrow> System" where
  "axis_point i c = \<lparr>ident = i, sys_name = ''P'', sys_x = c, sys_y = 0, sys_z = 0\<rparr>"

lemma distance_to_axis [simp]: "distance_to (axis_point i a) (axis_point j b) = \<bar>a - b\<bar>"
  by (simp add: distance_to_def axis_point_def)

lemma axis_point_eq [simp]: "(axis_point i a = axis_point j b) = (i = j \<and> a = b)"
  by (auto simp: axis_point_def)

lemmas run_simps =
  two_opt_def while_improved.simps upt_rec reversal_def total_cost_def jumps_to_def Let_def

lemma two_opt_example:
  "two_opt [axis_point 0 0, axis_point 1 (-2), axis_point 2 2, axis_point 3 (-1)] 1 False
     = Some ([axis_point 0 0, axis_point 3 (-1), axis_point 1 (-2), axis_point 2 2],
             [1, 1, 4], 6, 6, [1, 1, 4])"
  by (simp add: run_simps)

subsection \<open>The legs of a route and of its closure\<close>

lemma cost_loop_append:
  "cost_loop rng (ps @ qs) acc
     = (case cost_loop rng ps acc of None \<Rightarrow> None | Some acc' \<Rightarrow> cost_loop rng qs acc')"
proof (induction ps arbitrary: acc)
  case Nil
  show ?case by simp
next
  case (Cons p ps)
  obtain a b where p: "p = (a, b)" by (cases p)
  obtain tj jumps tly dists where acc: "acc = (tj, jumps, tly, dists)" by (cases acc)
  from Cons show ?case
    by (simp add: p acc Let_def split: option.splits)
qed

lemma cost_loop_length:
  "cost_loop rng ps (tj, js, tly, ds) = Some (tj', js', tly', ds') \<Longrightarrow>
   length js' = length js + length ps \<and> length ds' = length ds + length ps"
proof (induction ps arbitrary: tj js tly ds)
  case Nil
  then show ?case by simp
next
  case (Cons p ps)
  obtain a b where p: "p = (a, b)" by (cases p)
  from Cons.prems obtain j where
    "cost_loop rng ps (tj + j, js @ [j], tly + distance_to a b, ds @ [distance_to a b])
       = Some (tj', js', tly', ds')"
    by (auto simp: p Let_def split: option.splits)
  from Cons.IH [OF this] show ?case by simp
qed

lemma zip_closing:
  "p \<noteq> [] \<Longrightarrow> zip p (tl p @ [h]) = zip (butlast p) (tl p) @ [(last p, h)]"
proof (induction p)
  case Nil
  then show ?case by simp
next
  case (Cons a p)
  show ?case
  proof (cases p)
    case Nil
    then show ?thesis by simp
  next
    case (Cons b q)
    with Cons.IH show ?thesis by simp
  qed
qed

lemma cost_loop_single:
  "cost_loop rng [(a, b)] (tj, js, tly, ds)
     = (case jumps_to a b rng of
          None \<Rightarrow> None
        | Some j \<Rightarrow> Some (tj + j, js @ [j], tly + distance_to a b, ds @ [distance_to a b]))"
  by (simp add: Let_def split: option.splits)

lemma total_cost_closed:
  assumes "2 \<le> length p"
  shows "total_cost (p @ [hd p]) rng False = total_cost p rng True"
proof -
  from assms have ne: "p \<noteq> []" by auto
  have "total_cost (p @ [hd p]) rng False
          = cost_loop rng (zip p (tl p @ [hd p])) (0, [], 0, [])"
    using ne by (auto simp: total_cost_def split: option.splits)
  also have "\<dots> = cost_loop rng (zip (butlast p) (tl p) @ [(last p, hd p)]) (0, [], 0, [])"
    by (simp only: zip_closing [OF ne])
  also have "\<dots> = total_cost p rng True"
    using assms
    by (auto simp: total_cost_def cost_loop_append cost_loop_single Let_def
             simp del: cost_loop.simps split: option.splits)
  finally show ?thesis .
qed

lemma total_cost_loop_split:
  assumes "2 \<le> length p" and "total_cost p rng True = Some (tj, js, tly, ds)"
  shows "\<exists>tjo jo tlyo dso jc.
           total_cost p rng False = Some (tjo, jo, tlyo, dso) \<and>
           jumps_to (last p) (hd p) rng = Some jc \<and>
           tj = tjo + jc \<and> js = jo @ [jc] \<and>
           tly = tlyo + distance_to (last p) (hd p) \<and>
           ds = dso @ [distance_to (last p) (hd p)]"
  using assms by (auto simp: total_cost_def Let_def split: option.splits)

lemma total_cost_length:
  assumes "total_cost p rng False = Some (tj, js, tly, ds)"
  shows "length js = length p - 1 \<and> length ds = length p - 1"
proof (cases "length p < 2")
  case True
  with assms show ?thesis by (auto simp: total_cost_def)
next
  case False
  with assms have "cost_loop rng (zip (butlast p) (tl p)) (0, [], 0, []) = Some (tj, js, tly, ds)"
    by (auto simp: total_cost_def split: option.splits)
  from cost_loop_length [OF this] show ?thesis by simp
qed

lemma distance_to_self [simp]: "distance_to a a = 0"
  by (simp add: distance_to_def)

lemma jumps_to_self [simp]: "jumps_to a a rng = Some 0"
  by (simp add: jumps_to_def)

lemma total_cost_self_closed:
  assumes "hd p = last p" and "total_cost p rng True = Some (tj, js, tly, ds)"
  shows "\<exists>jo dso. total_cost p rng False = Some (tj, jo, tly, dso)"
  using assms by (auto simp: total_cost_def Let_def split: option.splits if_splits)

subsection \<open>\<^verbatim>\<open>nearest_neighbor\<close> and \<^verbatim>\<open>solve\<close>\<close>

lemma nn_loop_prefix: "nn_loop rng unvisited path cur = Some p \<Longrightarrow> \<exists>rest. p = path @ rest"
proof (induction rng unvisited path cur rule: nn_loop.induct)
  case (1 rng unvisited path cur)
  show ?case
  proof (cases "unvisited = []")
    case True
    with "1.prems" show ?thesis by (simp add: nn_loop.simps)
  next
    case False
    with "1.prems" obtain nxt where
      pick: "min_by (\<lambda>s. jumps_to cur s rng) unvisited = Some nxt" and
      rest: "nn_loop rng (remove1 nxt unvisited) (path @ [nxt]) nxt = Some p"
      by (subst (asm) nn_loop.simps) (auto split: option.splits)
    from "1.IH" [OF False pick rest] show ?thesis by auto
  qed
qed

lemma nearest_neighbor_start:
  assumes "nearest_neighbor slot systems start None rng = Some p"
  shows "p \<noteq> [] \<and> hd p = start"
proof -
  from assms have "nn_loop rng (sort_key slot (removeAll start (remdups systems))) [start] start
                     = Some p"
    by (auto simp: nearest_neighbor_def Let_def split: option.splits)
  from nn_loop_prefix [OF this] show ?thesis by auto
qed

lemma min_scan_total:
  "\<forall>s. key s \<noteq> None \<Longrightarrow> \<exists>r. min_scan key m mk ss = Some r"
proof (induction ss arbitrary: m mk)
  case Nil
  show ?case by simp
next
  case (Cons s ss)
  from Cons.prems obtain ks where "key s = Some ks" by auto
  with Cons show ?case by simp
qed

lemma min_by_total:
  "\<forall>s. key s \<noteq> None \<Longrightarrow> xs \<noteq> [] \<Longrightarrow> \<exists>r. min_by key xs = Some r"
  using min_scan_total [of key] by (cases xs) (auto simp: min_by_def split: option.splits)

lemma nn_loop_total: "rng \<noteq> 0 \<Longrightarrow> \<exists>p. nn_loop rng unvisited path cur = Some p"
proof (induction rng unvisited path cur rule: nn_loop.induct)
  case (1 rng unvisited path cur)
  show ?case
  proof (cases "unvisited = []")
    case True
    then show ?thesis by (simp add: nn_loop.simps)
  next
    case False
    have "\<forall>s. jumps_to cur s rng \<noteq> None"
      using jumps_to_total [OF "1.prems"] by auto
    from min_by_total [OF this False] obtain nxt where
      pick: "min_by (\<lambda>s. jumps_to cur s rng) unvisited = Some nxt"
      by blast
    from "1.IH" [OF False pick "1.prems"] False pick show ?thesis
      by (subst nn_loop.simps) simp
  qed
qed

lemma nearest_neighbor_total:
  "rng \<noteq> 0 \<Longrightarrow> \<exists>p. nearest_neighbor slot systems start fixed_end rng = Some p"
  using nn_loop_total [of rng "sort_key slot (removeAll start (remdups systems))" "[start]" start]
  by (auto simp: nearest_neighbor_def Let_def split: option.splits)

lemma solve_total:
  assumes "rng \<noteq> 0"
  shows "\<exists>res. solve slot systems rng loop_back final_is_last = Some res"
proof (cases "length systems < 2")
  case True
  then show ?thesis by (simp add: solve_def)
next
  case False
  let ?fe = "if \<not> loop_back \<and> final_is_last then Some (last systems) else None"
  from nearest_neighbor_total [OF assms] obtain p0 where
    nn: "nearest_neighbor slot (filter (\<lambda>s. Some s \<noteq> ?fe) systems) (hd systems) ?fe rng = Some p0"
    by blast
  from two_opt_total [OF assms] obtain p js tj tly ds where
    opt: "two_opt p0 rng loop_back = Some (p, js, tj, tly, ds)"
    by (metis prod_cases5)
  from jumps_to_total [OF assms] obtain j where
    "jumps_to ((p @ [hd p]) ! (length (p @ [hd p]) - 2)) (hd (p @ [hd p])) rng = Some j"
    by blast
  with False nn opt show ?thesis
    by (simp add: solve_def Let_def)
qed

lemma solve_loop_SomeD:
  assumes len: "2 \<le> length systems"
    and run: "solve slot systems rng True final_is_last = Some (route, jumps, tj, tly, dists)"
  shows "\<exists>p0 p js ds.
           nearest_neighbor slot systems (hd systems) None rng = Some p0 \<and>
           two_opt p0 rng True = Some (p, js, tj, tly, ds) \<and>
           p \<noteq> [] \<and> hd p = hd systems \<and>
           (hd p \<noteq> last p \<and> route = p @ [hd p] \<and>
              (\<exists>j. jumps_to (last p) (hd p) rng = Some j \<and> jumps = js @ [j]) \<and>
              dists = ds @ [distance_to (last p) (hd p)]
            \<or> hd p = last p \<and> route = p \<and> jumps = js \<and> dists = ds)"
proof -
  have pool: "filter (\<lambda>s. Some s \<noteq> None) systems = systems"
    by simp
  from len run obtain p0 where
    nn: "nearest_neighbor slot systems (hd systems) None rng = Some p0"
    by (auto simp: solve_def Let_def split: option.splits)
  from len run nn obtain p js ds where
    opt: "two_opt p0 rng True = Some (p, js, tj, tly, ds)"
    by (auto simp: solve_def Let_def split: option.splits if_splits)
  from nearest_neighbor_start [OF nn] have p0: "p0 \<noteq> []" "hd p0 = hd systems"
    by simp_all
  from two_opt_SomeD(2) [OF opt] p0 have ne: "p \<noteq> []"
    by auto
  from two_opt_SomeD(3) [OF opt] p0 ne have hd: "hd p = hd systems"
    by (cases p; cases p0) simp_all
  from ne have idx: "(p @ [hd p]) ! (length (p @ [hd p]) - 2) = last p"
    by (simp add: nth_append last_conv_nth)
  from ne have hd': "hd (p @ [hd p]) = hd p"
    by simp
  show ?thesis
  proof (cases "hd p \<noteq> last p")
    case True
    from ne have idx': "(p @ [hd p]) ! (length p - Suc 0) = last p"
      by (simp add: nth_append last_conv_nth)
    from True len run nn opt have
      "\<exists>j. jumps_to (last p) (hd p) rng = Some j \<and> route = p @ [hd p] \<and>
           jumps = js @ [j] \<and> dists = ds @ [distance_to (last p) (hd p)]"
      using idx idx' hd' by (auto simp: solve_def Let_def split: option.splits)
    with True nn opt ne hd show ?thesis
      by auto
  next
    case False
    with len run nn opt have "route = p \<and> jumps = js \<and> dists = ds"
      by (simp add: solve_def Let_def)
    with False nn opt ne hd show ?thesis
      by auto
  qed
qed

lemma nearest_neighbor_example:
  "nearest_neighbor slot [axis_point 0 0, axis_point 1 10, axis_point 2 20] (axis_point 0 0) None 15
     = Some [axis_point 0 0, axis_point 1 10, axis_point 2 20]"
  by (simp add: nearest_neighbor_def nn_loop.simps min_by_def jumps_to_def)

lemma two_opt_loop_example:
  "two_opt [axis_point 0 0, axis_point 1 10, axis_point 2 20] 15 True
     = Some ([axis_point 0 0, axis_point 1 10, axis_point 2 20], [1, 1, 2], 4, 40, [10, 10, 20])"
  by (simp add: run_simps)

lemma open_route_length: "p \<noteq> [] \<Longrightarrow> hd p \<noteq> last p \<Longrightarrow> 2 \<le> length p"
proof (cases p)
  case Nil
  assume "p \<noteq> []"
  with Nil show ?thesis by simp
next
  case (Cons a q)
  assume "hd p \<noteq> last p"
  with Cons show ?thesis by (cases q) simp_all
qed

subsection \<open>First improvement with restart, as the specification words it\<close>

text \<open>
  The specification describes the search of \<^verbatim>\<open>two_opt\<close> as first improvement with
  restart: the pairs \<open>(i, k)\<close> are tried in the order of the two ranges, the first
  improving reversal is applied, both loops are abandoned, and a fresh pass begins from
  the improved route. The next three definitions follow these words, with the
  acceptance test of the code (\<open>try_k\<close>); they are compared with \<^verbatim>\<open>two_opt\<close> below.
\<close>

definition scan_pairs :: "nat \<Rightarrow> (nat \<times> nat) list" where
  "scan_pairs n = concat (map (\<lambda>i. map (\<lambda>k. (i, k)) [i + 1 ..< n]) [1 ..< n - 2])"

fun first_improvement_scan ::
  "real \<Rightarrow> bool \<Rightarrow> nat \<Rightarrow> (nat \<times> nat) list \<Rightarrow> opt_state \<Rightarrow> opt_state option" where
  "first_improvement_scan rng loop n [] st = Some st"
| "first_improvement_scan rng loop n ((i, k) # pairs) st =
     (case try_k rng loop n i k st of
        None \<Rightarrow> None
      | Some st' \<Rightarrow>
          if improved st' then Some st' else first_improvement_scan rng loop n pairs st')"

lemma first_improvement_scan_step:
  assumes "first_improvement_scan rng loop n pairs st = Some st'"
    and "\<forall>(i, k)\<in>set pairs. i \<le> Suc k"
  shows "st' = st \<or>
         (improved st' \<and> mset (best st') = mset (best st) \<and> tracked rng loop st' \<and>
          lex_lt (best_j st', best_ly st') (best_j st, best_ly st))"
  using assms
proof (induction pairs arbitrary: st)
  case Nil
  then show ?case by simp
next
  case (Cons ik pairs)
  obtain i k where ik: "ik = (i, k)" by (cases ik)
  from Cons.prems(1) obtain st1 where
    one: "try_k rng loop n i k st = Some st1" and
    rest: "improved st1 \<and> st' = st1 \<or>
           \<not> improved st1 \<and> first_improvement_scan rng loop n pairs st1 = Some st'"
    by (auto simp: ik split: option.splits if_splits)
  from Cons.prems(2) have le: "i \<le> Suc k" and others: "\<forall>(i, k)\<in>set pairs. i \<le> Suc k"
    by (simp_all add: ik)
  from try_k_step [OF one le] rest Cons.IH [of st1] others show ?case
    by (auto intro: lex_lt_trans)
qed

lemma scan_pairs_ordered: "\<forall>(i, k)\<in>set (scan_pairs n). i \<le> Suc k"
  by (auto simp: scan_pairs_def)

function first_improvement_while ::
  "real \<Rightarrow> bool \<Rightarrow> nat \<Rightarrow> opt_state \<Rightarrow> opt_state option" where
  "first_improvement_while rng loop n st =
     (if improved st
      then
        (case first_improvement_scan rng loop n (scan_pairs n) (st\<lparr>improved := False\<rparr>) of
           None \<Rightarrow> None
         | Some st' \<Rightarrow> first_improvement_while rng loop n st')
      else Some st)"
  by pat_completeness auto
termination first_improvement_while
proof (relation "measure (\<lambda>(rng, loop, n, st).
                   if improved st then Suc (card (lower_routes rng loop st)) else 0)")
  show "wf (measure (\<lambda>(rng, loop, n, st).
              if improved st then Suc (card (lower_routes rng loop st)) else 0))"
    by simp
next
  fix rng :: real and loop :: bool and n :: nat and st st' :: opt_state
  assume imp: "improved st"
    and pass: "first_improvement_scan rng loop n (scan_pairs n) (st\<lparr>improved := False\<rparr>)
                 = Some st'"
  have "(if improved st' then Suc (card (lower_routes rng loop st')) else 0)
          < Suc (card (lower_routes rng loop st))"
  proof (cases "improved st'")
    case False
    then show ?thesis by simp
  next
    case True
    with first_improvement_scan_step [OF pass scan_pairs_ordered]
    have "mset (best st') = mset (best st)" and "tracked rng loop st'"
      and "lex_lt (best_j st', best_ly st') (best_j st, best_ly st)"
      by auto
    then have "card (lower_routes rng loop st') < card (lower_routes rng loop st)"
      by (rule lower_routes_shrink)
    with True show ?thesis by simp
  qed
  with imp show "((rng, loop, n, st'), (rng, loop, n, st))
                   \<in> measure (\<lambda>(rng, loop, n, st).
                        if improved st then Suc (card (lower_routes rng loop st)) else 0)"
    by simp
qed

declare first_improvement_while.simps [simp del]

definition two_opt_first_improvement ::
  "System list \<Rightarrow> real \<Rightarrow> bool \<Rightarrow> (System list \<times> int list \<times> int \<times> real \<times> real list) option" where
  "two_opt_first_improvement path rng loop =
     (case total_cost path rng loop of
        None \<Rightarrow> None
      | Some (bj, _, bly, _) \<Rightarrow>
          (let n = length path in
           case first_improvement_while rng loop n
                  \<lparr>best = path, best_j = bj, best_ly = bly, improved = True\<rparr> of
             None \<Rightarrow> None
           | Some st \<Rightarrow>
               (case total_cost (best st) rng loop of
                  None \<Rightarrow> None
                | Some (j, jumps, ly, dists) \<Rightarrow> Some (best st, jumps, j, ly, dists))))"

lemma two_opt_six_points:
  "two_opt [axis_point 0 0, axis_point 1 (-3), axis_point 2 2, axis_point 3 (-1),
            axis_point 4 (-2), axis_point 5 1] 1 False
     = Some ([axis_point 0 0, axis_point 5 1, axis_point 2 2, axis_point 3 (-1),
              axis_point 1 (-3), axis_point 4 (-2)], [1, 1, 3, 2, 1], 8, 8, [1, 1, 3, 2, 1])"
  by (simp add: run_simps)

lemma two_opt_first_improvement_six_points:
  "two_opt_first_improvement [axis_point 0 0, axis_point 1 (-3), axis_point 2 2, axis_point 3 (-1),
            axis_point 4 (-2), axis_point 5 1] 1 False
     = Some ([axis_point 0 0, axis_point 3 (-1), axis_point 4 (-2), axis_point 1 (-3),
              axis_point 2 2, axis_point 5 1], [1, 1, 1, 5, 1], 9, 9, [1, 1, 1, 5, 1])"
  by (simp add: two_opt_first_improvement_def first_improvement_while.simps scan_pairs_def
        try_k_def upt_rec reversal_def total_cost_def jumps_to_def Let_def)

lemma fold_try_None:
  "fold (\<lambda>k r. case r of None \<Rightarrow> None | Some s \<Rightarrow> g k s) ks None = None"
  by (induction ks) simp_all

lemma k_loop_fold:
  "k_loop rng loop n i ks st
     = fold (\<lambda>k r. case r of None \<Rightarrow> None | Some s \<Rightarrow> try_k rng loop n i k s) ks (Some st)"
proof (induction ks arbitrary: st)
  case Nil
  show ?case by simp
next
  case (Cons k ks)
  show ?case
  proof (cases "try_k rng loop n i k st")
    case None
    then show ?thesis
      by (simp add: k_loop_Cons fold_try_None del: k_loop.simps)
  next
    case (Some st1)
    with Cons [of st1] show ?thesis
      by (simp add: k_loop_Cons del: k_loop.simps)
  qed
qed

lemma i_loop_first_row:
  assumes "\<not> improved st"
  shows "i_loop rng loop n rows st
           = (case find (\<lambda>i. \<exists>k\<in>set [i + 1 ..< n]. \<not> no_gain rng loop n st i k) rows of
                None \<Rightarrow> Some st
              | Some i \<Rightarrow> k_loop rng loop n i [i + 1 ..< n] st)"
proof (induction rows)
  case Nil
  show ?case by simp
next
  case (Cons i rows)
  show ?case
  proof (cases "\<exists>k\<in>set [i + 1 ..< n]. \<not> no_gain rng loop n st i k")
    case False
    then have "k_loop rng loop n i [i + 1 ..< n] st = Some st"
      using k_loop_no_gain [OF assms, of rng loop n i "[i + 1 ..< n]" st] by blast
    with False assms Cons show ?thesis
      by simp
  next
    case True
    have "k_loop rng loop n i [i + 1 ..< n] st = Some st1 \<Longrightarrow> improved st1" for st1
      using True k_loop_no_gain [OF assms, of rng loop n i "[i + 1 ..< n]" st1] by blast
    with True show ?thesis
      by (auto split: option.splits)
  qed
qed

subsection \<open>Restart after a whole row, as the amended claim words it\<close>

text \<open>
  The search that the amended claim C2 describes, written from its words and without
  the flag \<^verbatim>\<open>improved\<close> as a control variable:
  \<^item> \<open>row_scan\<close>: every \<open>k\<close> of the row \<open>i\<close> is tried, in order, each on the route that the
    steps before it have left (an accepted reversal is applied at once, and the scan
    goes on);
  \<^item> \<open>first_gain_row\<close>: the first row of the pass with a pair that is not left as it is,
    if there is one;
  \<^item> \<open>row_restart_search\<close>: when no row has such a pair the search ends with the route it
    has; otherwise that row is scanned to its end, the rows after it are left out, and
    a fresh pass begins from the improved route.
\<close>

definition row_scan :: "real \<Rightarrow> bool \<Rightarrow> nat \<Rightarrow> nat \<Rightarrow> opt_state \<Rightarrow> opt_state option" where
  "row_scan rng loop n i st =
     fold (\<lambda>k r. case r of None \<Rightarrow> None | Some s \<Rightarrow> try_k rng loop n i k s)
       [i + 1 ..< n] (Some st)"

definition first_gain_row :: "real \<Rightarrow> bool \<Rightarrow> nat \<Rightarrow> opt_state \<Rightarrow> nat option" where
  "first_gain_row rng loop n st =
     find (\<lambda>i. \<exists>k\<in>set [i + 1 ..< n]. \<not> no_gain rng loop n st i k) [1 ..< n - 2]"

lemma row_scan_k_loop: "row_scan rng loop n i st = k_loop rng loop n i [i + 1 ..< n] st"
  by (simp add: row_scan_def k_loop_fold)

lemma first_gain_row_scan:
  assumes ni: "\<not> improved s"
    and row: "first_gain_row rng loop n s = Some i"
    and scan: "row_scan rng loop n i s = Some st'"
  shows "improved st' \<and> mset (best st') = mset (best s) \<and> tracked rng loop st' \<and>
         lex_lt (best_j st', best_ly st') (best_j s, best_ly s)"
proof -
  from row have gain: "\<exists>k\<in>set [i + 1 ..< n]. \<not> no_gain rng loop n s i k"
    by (auto simp: first_gain_row_def find_Some_iff)
  from scan have run: "k_loop rng loop n i [i + 1 ..< n] s = Some st'"
    by (simp add: row_scan_k_loop)
  have imp: "improved st'"
    using gain k_loop_no_gain [OF ni, of rng loop n i "[i + 1 ..< n]" st'] run by blast
  have "\<forall>k\<in>set [i + 1 ..< n]. i \<le> Suc k"
    by simp
  from k_loop_step [OF run this] imp ni show ?thesis
    by auto
qed

function row_restart_search :: "real \<Rightarrow> bool \<Rightarrow> nat \<Rightarrow> opt_state \<Rightarrow> opt_state option" where
  "row_restart_search rng loop n st =
     (let s = st\<lparr>improved := False\<rparr> in
      case first_gain_row rng loop n s of
        None \<Rightarrow> Some s
      | Some i \<Rightarrow>
          (case row_scan rng loop n i s of
             None \<Rightarrow> None
           | Some st' \<Rightarrow> row_restart_search rng loop n st'))"
  by pat_completeness auto
termination row_restart_search
proof (relation "measure (\<lambda>(rng, loop, n, st). card (lower_routes rng loop st))")
  show "wf (measure (\<lambda>(rng, loop, n, st). card (lower_routes rng loop st)))"
    by simp
next
  fix rng :: real and loop :: bool and n i :: nat and st s st' :: opt_state
  assume s: "s = st\<lparr>improved := False\<rparr>"
    and row: "first_gain_row rng loop n s = Some i"
    and scan: "row_scan rng loop n i s = Some st'"
  from s have "\<not> improved s" by simp
  from first_gain_row_scan [OF this row scan] s
  have "mset (best st') = mset (best st)" and "tracked rng loop st'"
    and "lex_lt (best_j st', best_ly st') (best_j st, best_ly st)"
    by simp_all
  then have "card (lower_routes rng loop st') < card (lower_routes rng loop st)"
    by (rule lower_routes_shrink)
  then show "((rng, loop, n, st'), (rng, loop, n, st))
               \<in> measure (\<lambda>(rng, loop, n, st). card (lower_routes rng loop st))"
    by simp
qed

declare row_restart_search.simps [simp del]

definition two_opt_row_restart ::
  "System list \<Rightarrow> real \<Rightarrow> bool \<Rightarrow> (System list \<times> int list \<times> int \<times> real \<times> real list) option" where
  "two_opt_row_restart path rng loop =
     (case total_cost path rng loop of
        None \<Rightarrow> None
      | Some (bj, _, bly, _) \<Rightarrow>
          (case row_restart_search rng loop (length path)
                  \<lparr>best = path, best_j = bj, best_ly = bly, improved = False\<rparr> of
             None \<Rightarrow> None
           | Some st \<Rightarrow>
               (case total_cost (best st) rng loop of
                  None \<Rightarrow> None
                | Some (j, jumps, ly, dists) \<Rightarrow> Some (best st, jumps, j, ly, dists))))"

lemma while_improved_row_restart:
  "improved st \<Longrightarrow> while_improved rng loop n st = row_restart_search rng loop n st"
proof (induction rng loop n st rule: while_improved.induct)
  case (1 rng loop n st)
  let ?s = "st\<lparr>improved := False\<rparr>"
  have ni: "\<not> improved ?s" by simp
  have pass: "i_loop rng loop n [1 ..< n - 2] ?s
                = (case first_gain_row rng loop n ?s of
                     None \<Rightarrow> Some ?s
                   | Some i \<Rightarrow> row_scan rng loop n i ?s)"
    by (simp only: i_loop_first_row [OF ni] first_gain_row_def row_scan_k_loop)
  show ?case
  proof (cases "first_gain_row rng loop n ?s")
    case None
    with pass have "i_loop rng loop n [1 ..< n - 2] ?s = Some ?s"
      by simp
    then have "while_improved rng loop n st = Some ?s"
      using "1.prems"
      by (subst while_improved.simps) (simp add: while_improved.simps [of rng loop n ?s])
    moreover from None have "row_restart_search rng loop n st = Some ?s"
      by (subst row_restart_search.simps) (simp add: Let_def)
    ultimately show ?thesis by simp
  next
    case (Some i)
    with pass have il: "i_loop rng loop n [1 ..< n - 2] ?s = row_scan rng loop n i ?s"
      by simp
    show ?thesis
    proof (cases "row_scan rng loop n i ?s")
      case None
      with il "1.prems" have "while_improved rng loop n st = None"
        by (subst while_improved.simps) simp
      moreover from Some None have "row_restart_search rng loop n st = None"
        by (subst row_restart_search.simps) (simp add: Let_def)
      ultimately show ?thesis by simp
    next
      case scan: (Some st')
      from first_gain_row_scan [OF ni Some scan] have imp: "improved st'"
        by simp
      from il scan have il': "i_loop rng loop n [1 ..< n - 2] ?s = Some st'"
        by simp
      from il' "1.prems" have "while_improved rng loop n st = while_improved rng loop n st'"
        by (subst while_improved.simps) simp
      also have "\<dots> = row_restart_search rng loop n st'"
        by (rule "1.IH" [OF "1.prems" il' imp])
      also from Some scan have "\<dots> = row_restart_search rng loop n st"
        by (subst (2) row_restart_search.simps) (simp add: Let_def)
      finally show ?thesis .
    qed
  qed
qed

lemma row_restart_search_flag:
  "row_restart_search rng loop n (st\<lparr>improved := b\<rparr>) = row_restart_search rng loop n st"
  using row_restart_search.simps [of rng loop n "st\<lparr>improved := b\<rparr>"]
        row_restart_search.simps [of rng loop n st]
  by simp

section \<open>Properties\<close>

subsection \<open>Short routes cost nothing\<close>

text \<open>
  C8. On a route with fewer than two elements \<^verbatim>\<open>total_cost\<close> returns \<^verbatim>\<open>(0, [], 0.0, [])\<close>,
  for every range (zero included: no quotient is computed) and both values of the loop
  flag.
\<close>

theorem total_cost_short:
  "length path < 2 \<Longrightarrow> total_cost path rng loop = Some (0, [], 0, [])"
  by (simp add: total_cost_def)

theorem total_cost_short_witness:
  "length [\<lparr>ident = 0, sys_name = ''Sol'', sys_x = 1, sys_y = 2, sys_z = 3\<rparr>] < 2 \<and>
   total_cost [\<lparr>ident = 0, sys_name = ''Sol'', sys_x = 1, sys_y = 2, sys_z = 3\<rparr>] 0 True
     = Some (0, [], 0, [])"
proof
  show short: "length [\<lparr>ident = 0, sys_name = ''Sol'', sys_x = 1, sys_y = 2, sys_z = 3\<rparr>] < 2"
    by simp
  show "total_cost [\<lparr>ident = 0, sys_name = ''Sol'', sys_x = 1, sys_y = 2, sys_z = 3\<rparr>] 0 True
          = Some (0, [], 0, [])"
    by (rule total_cost_short [OF short])
qed

subsection \<open>The route that \<^verbatim>\<open>two_opt\<close> returns\<close>

text \<open>
  C10. For every route, range and loop flag, the route that \<^verbatim>\<open>two_opt\<close> returns is a
  permutation of the input route (same multiset of objects, same length) and starts
  with the same element. \<^verbatim>\<open>two_opt\<close> returns whenever the range is not zero; with a zero
  range it can raise \<^verbatim>\<open>ZeroDivisionError\<close>, and the property holds whenever it returns.
\<close>

theorem two_opt_permutation:
  "(rng \<noteq> 0 \<longrightarrow> (\<exists>res. two_opt path rng loop = Some res)) \<and>
   (\<forall>r jumps j ly dists.
      two_opt path rng loop = Some (r, jumps, j, ly, dists) \<longrightarrow>
        mset r = mset path \<and> length r = length path \<and> take 1 r = take 1 path \<and>
        (path \<noteq> [] \<longrightarrow> hd r = hd path))"
proof (intro conjI allI impI)
  assume "rng \<noteq> 0"
  then show "\<exists>res. two_opt path rng loop = Some res"
    by (rule two_opt_total)
next
  fix r jumps j ly dists
  assume run: "two_opt path rng loop = Some (r, jumps, j, ly, dists)"
  show m: "mset r = mset path"
    by (rule two_opt_SomeD(2) [OF run])
  from m show len: "length r = length path"
    by (rule mset_eq_length)
  show t: "take 1 r = take 1 path"
    using two_opt_SomeD(3) [OF run] by simp
  assume "path \<noteq> []"
  with len have "r \<noteq> []" by auto
  with t \<open>path \<noteq> []\<close> show "hd r = hd path"
    by (cases r; cases path) simp_all
qed

theorem two_opt_permutation_witness:
  "two_opt [axis_point 0 0, axis_point 1 (-2), axis_point 2 2, axis_point 3 (-1)] 1 False
     = Some ([axis_point 0 0, axis_point 3 (-1), axis_point 1 (-2), axis_point 2 2],
             [1, 1, 4], 6, 6, [1, 1, 4]) \<and>
   mset [axis_point 0 0, axis_point 3 (-1), axis_point 1 (-2), axis_point 2 2]
     = mset [axis_point 0 0, axis_point 1 (-2), axis_point 2 2, axis_point 3 (-1)] \<and>
   hd [axis_point 0 0, axis_point 3 (-1), axis_point 1 (-2), axis_point 2 2] = axis_point 0 0"
proof -
  let ?p = "[axis_point 0 0, axis_point 1 (-2), axis_point 2 2, axis_point 3 (-1)]"
  let ?r = "[axis_point 0 0, axis_point 3 (-1), axis_point 1 (-2), axis_point 2 2]"
  have run: "two_opt ?p 1 False = Some (?r, [1, 1, 4], 6, 6, [1, 1, 4])"
    by (rule two_opt_example)
  from two_opt_permutation [of 1 ?p False, THEN conjunct2, rule_format, OF run]
  have "mset ?r = mset ?p" and "?p \<noteq> [] \<longrightarrow> hd ?r = hd ?p"
    by blast+
  with run show ?thesis by simp
qed

subsection \<open>Local optimality\<close>

text \<open>
  C4. The route \<open>r\<close> that \<^verbatim>\<open>two_opt\<close> returns, with its totals \<open>j\<close> (hops) and \<open>ly\<close>
  (distance), is locally 2-optimal: for every \<open>i\<close>, \<open>k\<close> with \<open>1 \<le> i < n - 2\<close> and
  \<open>i < k < n\<close>, where \<open>n\<close> is the length of the route, and in loop mode neither \<open>i = 1\<close>
  nor \<open>k = n - 1\<close>, the reversal of the positions \<open>i..k\<close> has totals \<open>nj\<close>, \<open>nly\<close> with
  neither \<open>nj < j\<close> nor \<open>nj = j\<close> and \<open>nly < ly\<close>. \<^verbatim>\<open>two_opt\<close> returns for every range other
  than zero, so for every positive one.
\<close>

theorem two_opt_locally_optimal:
  "(rng \<noteq> 0 \<longrightarrow> (\<exists>res. two_opt path rng loop = Some res)) \<and>
   (\<forall>r jumps j ly dists i k.
      two_opt path rng loop = Some (r, jumps, j, ly, dists) \<longrightarrow>
      1 \<le> i \<and> i < length r - 2 \<and> i < k \<and> k < length r \<and>
      \<not> (loop \<and> (i = 1 \<or> k = length r - 1)) \<longrightarrow>
        (\<exists>nj njumps nly ndists.
           total_cost (reversal r i k) rng loop = Some (nj, njumps, nly, ndists) \<and>
           \<not> nj < j \<and> \<not> (nj = j \<and> nly < ly)))"
proof (intro conjI allI impI)
  assume "rng \<noteq> 0"
  then show "\<exists>res. two_opt path rng loop = Some res"
    by (rule two_opt_total)
next
  fix r jumps j ly dists i k
  assume run: "two_opt path rng loop = Some (r, jumps, j, ly, dists)"
    and ik: "1 \<le> i \<and> i < length r - 2 \<and> i < k \<and> k < length r \<and>
             \<not> (loop \<and> (i = 1 \<or> k = length r - 1))"
  have len: "length r = length path"
    using two_opt_SomeD(2) [OF run] by (rule mset_eq_length)
  from ik len have "i \<in> set [1 ..< length path - 2]" and "k \<in> set [i + 1 ..< length path]"
    by auto
  with two_opt_SomeD(4) [OF run]
  have "no_gain rng loop (length path)
          \<lparr>best = r, best_j = j, best_ly = ly, improved = False\<rparr> i k"
    by blast
  with ik len obtain c where
    c: "costs rng loop (reversal r i k) = Some c" and nl: "\<not> lex_lt c (j, ly)"
    by (auto simp: no_gain_def)
  from c obtain nj njumps nly ndists where
    "total_cost (reversal r i k) rng loop = Some (nj, njumps, nly, ndists)" and "c = (nj, nly)"
    by (auto simp: costs_def)
  with nl show "\<exists>nj njumps nly ndists.
           total_cost (reversal r i k) rng loop = Some (nj, njumps, nly, ndists) \<and>
           \<not> nj < j \<and> \<not> (nj = j \<and> nly < ly)"
    by (auto simp: lex_lt_def)
qed

theorem two_opt_locally_optimal_witness:
  "two_opt [axis_point 0 0, axis_point 1 (-2), axis_point 2 2, axis_point 3 (-1)] 1 False
     = Some ([axis_point 0 0, axis_point 3 (-1), axis_point 1 (-2), axis_point 2 2],
             [1, 1, 4], 6, 6, [1, 1, 4]) \<and>
   (1::nat) < length [axis_point 0 0, axis_point 3 (-1), axis_point 1 (-2), axis_point 2 2] - 2 \<and>
   (\<exists>nj njumps nly ndists.
      total_cost
        (reversal [axis_point 0 0, axis_point 3 (-1), axis_point 1 (-2), axis_point 2 2] 1 3)
        1 False = Some (nj, njumps, nly, ndists) \<and>
      \<not> nj < 6 \<and> \<not> (nj = 6 \<and> nly < 6))"
proof -
  let ?p = "[axis_point 0 0, axis_point 1 (-2), axis_point 2 2, axis_point 3 (-1)]"
  let ?r = "[axis_point 0 0, axis_point 3 (-1), axis_point 1 (-2), axis_point 2 2]"
  have run: "two_opt ?p 1 False = Some (?r, [1, 1, 4], 6, 6, [1, 1, 4])"
    by (rule two_opt_example)
  have ik: "(1::nat) \<le> 1 \<and> 1 < length ?r - 2 \<and> (1::nat) < 3 \<and> 3 < length ?r \<and>
            \<not> (False \<and> ((1::nat) = 1 \<or> 3 = length ?r - 1))"
    by simp
  from two_opt_locally_optimal [of 1 ?p False, THEN conjunct2, rule_format, OF run ik]
  have "\<exists>nj njumps nly ndists.
      total_cost (reversal ?r 1 3) 1 False = Some (nj, njumps, nly, ndists) \<and>
      \<not> nj < 6 \<and> \<not> (nj = 6 \<and> nly < 6)" .
  with run ik show ?thesis by blast
qed

subsection \<open>Idempotence\<close>

text \<open>
  C9. Applying \<^verbatim>\<open>two_opt\<close>, with the same range and loop flag, to a route it has returned
  gives the same route again, with the same per-leg lists and the same totals; this
  second call returns also with a zero range. The first call returns for every range
  other than zero.
\<close>

theorem two_opt_idempotent:
  "(rng \<noteq> 0 \<longrightarrow> (\<exists>res. two_opt path rng loop = Some res)) \<and>
   (\<forall>r jumps j ly dists.
      two_opt path rng loop = Some (r, jumps, j, ly, dists) \<longrightarrow>
        two_opt r rng loop = Some (r, jumps, j, ly, dists))"
proof (intro conjI allI impI)
  assume "rng \<noteq> 0"
  then show "\<exists>res. two_opt path rng loop = Some res"
    by (rule two_opt_total)
next
  fix r jumps j ly dists
  assume run: "two_opt path rng loop = Some (r, jumps, j, ly, dists)"
  have len: "length r = length path"
    using two_opt_SomeD(2) [OF run] by (rule mset_eq_length)
  show "two_opt r rng loop = Some (r, jumps, j, ly, dists)"
  proof (rule two_opt_fixpoint)
    show "total_cost r rng loop = Some (j, jumps, ly, dists)"
      by (rule two_opt_SomeD(1) [OF run])
    show "\<forall>i\<in>set [1 ..< length r - 2]. \<forall>k\<in>set [i + 1 ..< length r].
            no_gain rng loop (length r)
              \<lparr>best = r, best_j = j, best_ly = ly, improved = False\<rparr> i k"
      using two_opt_SomeD(4) [OF run] by (simp only: len)
  qed
qed

theorem two_opt_idempotent_witness:
  "two_opt [axis_point 0 0, axis_point 1 (-2), axis_point 2 2, axis_point 3 (-1)] 1 False
     = Some ([axis_point 0 0, axis_point 3 (-1), axis_point 1 (-2), axis_point 2 2],
             [1, 1, 4], 6, 6, [1, 1, 4]) \<and>
   two_opt [axis_point 0 0, axis_point 3 (-1), axis_point 1 (-2), axis_point 2 2] 1 False
     = Some ([axis_point 0 0, axis_point 3 (-1), axis_point 1 (-2), axis_point 2 2],
             [1, 1, 4], 6, 6, [1, 1, 4])"
proof
  show run: "two_opt [axis_point 0 0, axis_point 1 (-2), axis_point 2 2, axis_point 3 (-1)] 1 False
     = Some ([axis_point 0 0, axis_point 3 (-1), axis_point 1 (-2), axis_point 2 2],
             [1, 1, 4], 6, 6, [1, 1, 4])"
    by (rule two_opt_example)
  show "two_opt [axis_point 0 0, axis_point 3 (-1), axis_point 1 (-2), axis_point 2 2] 1 False
     = Some ([axis_point 0 0, axis_point 3 (-1), axis_point 1 (-2), axis_point 2 2],
             [1, 1, 4], 6, 6, [1, 1, 4])"
    by (rule two_opt_idempotent [THEN conjunct2, rule_format, OF run])
qed

subsection \<open>The hop count of one leg\<close>

text \<open>
  C5, as amended. For every two points and every range above zero, \<^verbatim>\<open>jumps_to\<close> returns
  0 when the distance is at most \<open>1e-6\<close> (the code tests \<^verbatim>\<open>d > 1e-6\<close>, so a distance of
  exactly \<open>1e-6\<close> gives 0) and otherwise the ceiling of distance over range, floored at
  1; the result is at least 1 whenever the distance is above \<open>1e-6\<close>.
\<close>

theorem jumps_to_value:
  assumes "0 < max_range"
  shows "jumps_to a b max_range
           = Some (if distance_to a b \<le> 1 / 10 ^ 6 then 0
                   else max 1 \<lceil>distance_to a b / max_range\<rceil>) \<and>
         (1 / 10 ^ 6 < distance_to a b \<longrightarrow>
            (\<exists>j. jumps_to a b max_range = Some j \<and> 1 \<le> j))"
  using assms by (auto simp: jumps_to_def Let_def)

theorem jumps_to_value_witness:
  "(0::real) < 15 \<and>
   jumps_to (axis_point 0 0) (axis_point 1 20) 15
     = Some (if distance_to (axis_point 0 0) (axis_point 1 20) \<le> 1 / 10 ^ 6 then 0
             else max 1 \<lceil>distance_to (axis_point 0 0) (axis_point 1 20) / 15\<rceil>) \<and>
   jumps_to (axis_point 0 0) (axis_point 1 20) 15 = Some 2"
proof -
  have pos: "(0::real) < 15" by simp
  have val: "jumps_to (axis_point 0 0) (axis_point 1 20) 15 = Some 2"
    by (simp add: jumps_to_def)
  from jumps_to_value [OF pos, of "axis_point 0 0" "axis_point 1 20"] pos val
  show ?thesis by blast
qed

text \<open>
  The claim as stated gives 0 only below \<open>1e-6\<close>. Two points at distance exactly \<open>1e-6\<close>,
  with range 1: the distance is not below \<open>1e-6\<close>, the ceiling floored at 1 is 1, and
  \<^verbatim>\<open>jumps_to\<close> returns 0.
\<close>

theorem jumps_to_boundary_counterexample:
  "(0::real) < 1 \<and>
   \<not> distance_to (axis_point 0 0) (axis_point 1 (1 / 10 ^ 6)) < 1 / 10 ^ 6 \<and>
   max 1 \<lceil>distance_to (axis_point 0 0) (axis_point 1 (1 / 10 ^ 6)) / 1\<rceil> = 1 \<and>
   jumps_to (axis_point 0 0) (axis_point 1 (1 / 10 ^ 6)) 1 = Some 0"
  by (simp add: jumps_to_def)

subsection \<open>The worked example\<close>

text \<open>
  C7. For \<open>A = (0, 0, 0)\<close>, \<open>B = (10, 0, 0)\<close>, \<open>C = (20, 0, 0)\<close> and range 15: the hop
  counts are 1 for \<open>A\<close> to \<open>B\<close>, 1 for \<open>B\<close> to \<open>C\<close> and 2 for \<open>A\<close> to \<open>C\<close>;
  \<^verbatim>\<open>nearest_neighbor\<close> from \<open>A\<close> yields \<open>[A, B, C]\<close>, whatever the iteration order of the set,
  without a fixed end and with the fixed end \<open>C\<close>; \<^verbatim>\<open>two_opt\<close> has no reversal to try on a
  route of three elements and returns the route as it is; the totals are 2 hops and
  distance 20, also as \<^verbatim>\<open>solve\<close> returns them.
\<close>

theorem worked_example:
  "jumps_to (axis_point 0 0) (axis_point 1 10) 15 = Some 1 \<and>
   jumps_to (axis_point 1 10) (axis_point 2 20) 15 = Some 1 \<and>
   jumps_to (axis_point 0 0) (axis_point 2 20) 15 = Some 2 \<and>
   nearest_neighbor slot [axis_point 0 0, axis_point 1 10, axis_point 2 20] (axis_point 0 0) None 15
     = Some [axis_point 0 0, axis_point 1 10, axis_point 2 20] \<and>
   nearest_neighbor slot [axis_point 0 0, axis_point 1 10] (axis_point 0 0)
       (Some (axis_point 2 20)) 15
     = Some [axis_point 0 0, axis_point 1 10, axis_point 2 20] \<and>
   i_loop 15 False 3 [1 ..< 3 - 2]
       \<lparr>best = [axis_point 0 0, axis_point 1 10, axis_point 2 20], best_j = 2, best_ly = 20,
          improved = False\<rparr>
     = Some \<lparr>best = [axis_point 0 0, axis_point 1 10, axis_point 2 20], best_j = 2, best_ly = 20,
          improved = False\<rparr> \<and>
   two_opt [axis_point 0 0, axis_point 1 10, axis_point 2 20] 15 False
     = Some ([axis_point 0 0, axis_point 1 10, axis_point 2 20], [1, 1], 2, 20, [10, 10]) \<and>
   solve slot [axis_point 0 0, axis_point 1 10, axis_point 2 20] 15 False False
     = Some ([axis_point 0 0, axis_point 1 10, axis_point 2 20], [1, 1], 2, 20, [10, 10]) \<and>
   solve slot [axis_point 0 0, axis_point 1 10, axis_point 2 20] 15 False True
     = Some ([axis_point 0 0, axis_point 1 10, axis_point 2 20], [1, 1], 2, 20, [10, 10])"
proof -
  let ?A = "axis_point 0 0" and ?B = "axis_point 1 10" and ?C = "axis_point 2 20"
  have hops: "jumps_to ?A ?B 15 = Some 1" "jumps_to ?B ?C 15 = Some 1"
    "jumps_to ?A ?C 15 = Some 2"
    by (simp_all add: jumps_to_def)
  have nn_free: "nearest_neighbor slot [?A, ?B, ?C] ?A None 15 = Some [?A, ?B, ?C]"
    by (simp add: nearest_neighbor_def nn_loop.simps min_by_def jumps_to_def)
  have nn_fixed: "nearest_neighbor slot [?A, ?B] ?A (Some ?C) 15 = Some [?A, ?B, ?C]"
    by (simp add: nearest_neighbor_def nn_loop.simps min_by_def jumps_to_def)
  have pass: "i_loop 15 False 3 [1 ..< 3 - 2]
       \<lparr>best = [?A, ?B, ?C], best_j = 2, best_ly = 20, improved = False\<rparr>
     = Some \<lparr>best = [?A, ?B, ?C], best_j = 2, best_ly = 20, improved = False\<rparr>"
    by simp
  have opt: "two_opt [?A, ?B, ?C] 15 False = Some ([?A, ?B, ?C], [1, 1], 2, 20, [10, 10])"
    by (simp add: run_simps)
  have s1: "solve slot [?A, ?B, ?C] 15 False False
              = Some ([?A, ?B, ?C], [1, 1], 2, 20, [10, 10])"
    using nn_free opt by (simp add: solve_def)
  have s2: "solve slot [?A, ?B, ?C] 15 False True
              = Some ([?A, ?B, ?C], [1, 1], 2, 20, [10, 10])"
    using nn_fixed opt by (simp add: solve_def)
  from hops nn_free nn_fixed pass opt s1 s2 show ?thesis
    by simp
qed

subsection \<open>The fixed end\<close>

text \<open>
  C1. With \<^verbatim>\<open>loop_back\<close> false and \<^verbatim>\<open>final_is_last\<close> true the route has to end with the last
  input point. \<^verbatim>\<open>nearest_neighbor\<close> puts it there, but \<^verbatim>\<open>two_opt\<close> without loop mode also
  tries \<open>k = n - 1\<close>, a reversal that moves the last element. For the input
  \<open>A = 0\<close>, \<open>B = 3\<close>, \<open>C = 2\<close>, \<open>D = 1\<close> on the x axis and range 1, \<^verbatim>\<open>nearest_neighbor\<close> gives
  \<open>[A, C, B, D]\<close> with 5 hops, and \<^verbatim>\<open>two_opt\<close> accepts the reversal of positions 1 to 3,
  \<open>[A, D, B, C]\<close> with 4 hops: \<^verbatim>\<open>solve\<close> returns a route that ends with \<open>C\<close>, for every
  iteration order of the set.
\<close>

theorem solve_moves_fixed_end:
  "nearest_neighbor slot [axis_point 0 0, axis_point 1 3, axis_point 2 2] (axis_point 0 0)
       (Some (axis_point 3 1)) 1
     = Some [axis_point 0 0, axis_point 2 2, axis_point 1 3, axis_point 3 1] \<and>
   solve slot [axis_point 0 0, axis_point 1 3, axis_point 2 2, axis_point 3 1] 1 False True
     = Some ([axis_point 0 0, axis_point 3 1, axis_point 1 3, axis_point 2 2],
             [1, 2, 1], 4, 4, [1, 2, 1]) \<and>
   last [axis_point 0 0, axis_point 3 1, axis_point 1 3, axis_point 2 2]
     \<noteq> last [axis_point 0 0, axis_point 1 3, axis_point 2 2, axis_point 3 1]"
proof -
  let ?A = "axis_point 0 0" and ?B = "axis_point 1 3" and ?C = "axis_point 2 2"
    and ?D = "axis_point 3 1"
  have nn: "nearest_neighbor slot [?A, ?B, ?C] ?A (Some ?D) 1 = Some [?A, ?C, ?B, ?D]"
    by (simp add: nearest_neighbor_def nn_loop.simps min_by_def jumps_to_def)
  have opt: "two_opt [?A, ?C, ?B, ?D] 1 False
               = Some ([?A, ?D, ?B, ?C], [1, 2, 1], 4, 4, [1, 2, 1])"
    by (simp add: run_simps)
  have "solve slot [?A, ?B, ?C, ?D] 1 False True
          = Some ([?A, ?D, ?B, ?C], [1, 2, 1], 4, 4, [1, 2, 1])"
    using nn opt by (simp add: solve_def)
  with nn show ?thesis by simp
qed

subsection \<open>Loop mode\<close>

text \<open>
  C6. With \<^verbatim>\<open>loop_back\<close> true and at least two input points, the route that \<^verbatim>\<open>solve\<close>
  returns starts and ends with the first input point, and the returned totals are the
  hops and the distance of that closed route walked leg by leg, its last leg back to
  the start included. \<^verbatim>\<open>solve\<close> returns for every range other than zero.
\<close>

theorem solve_loop_closes:
  assumes "2 \<le> length systems"
  shows "(rng \<noteq> 0 \<longrightarrow> (\<exists>res. solve slot systems rng True final_is_last = Some res)) \<and>
         (\<forall>route jumps tj tly dists.
            solve slot systems rng True final_is_last = Some (route, jumps, tj, tly, dists) \<longrightarrow>
              route \<noteq> [] \<and> hd route = hd systems \<and> last route = hd systems \<and>
              (\<exists>js ds. total_cost route rng False = Some (tj, js, tly, ds)))"
proof (intro conjI allI impI)
  assume "rng \<noteq> 0"
  then show "\<exists>res. solve slot systems rng True final_is_last = Some res"
    by (rule solve_total)
next
  fix route jumps tj tly dists
  assume run: "solve slot systems rng True final_is_last = Some (route, jumps, tj, tly, dists)"
  from solve_loop_SomeD [OF assms run] obtain p0 p js ds where
    opt: "two_opt p0 rng True = Some (p, js, tj, tly, ds)" and
    ne: "p \<noteq> []" and hd: "hd p = hd systems" and
    shape: "hd p \<noteq> last p \<and> route = p @ [hd p] \<or> hd p = last p \<and> route = p"
    by blast
  have cost: "total_cost p rng True = Some (tj, js, tly, ds)"
    by (rule two_opt_SomeD(1) [OF opt])
  from shape ne show "route \<noteq> []" by auto
  from shape ne hd show "hd route = hd systems" by auto
  from shape ne hd show "last route = hd systems" by auto
  from shape show "\<exists>js ds. total_cost route rng False = Some (tj, js, tly, ds)"
  proof
    assume open_route: "hd p \<noteq> last p \<and> route = p @ [hd p]"
    with ne have "2 \<le> length p"
      by (simp add: open_route_length)
    from total_cost_closed [OF this, of rng] cost open_route show ?thesis
      by simp
  next
    assume "hd p = last p \<and> route = p"
    with total_cost_self_closed [OF _ cost] show ?thesis
      by simp
  qed
qed

theorem solve_loop_closes_witness:
  "2 \<le> length [axis_point 0 0, axis_point 1 10, axis_point 2 20] \<and>
   solve ident [axis_point 0 0, axis_point 1 10, axis_point 2 20] 15 True False
     = Some ([axis_point 0 0, axis_point 1 10, axis_point 2 20, axis_point 0 0],
             [1, 1, 2, 2], 4, 40, [10, 10, 20, 20]) \<and>
   last [axis_point 0 0, axis_point 1 10, axis_point 2 20, axis_point 0 0]
     = hd [axis_point 0 0, axis_point 1 10, axis_point 2 20] \<and>
   (\<exists>js ds. total_cost [axis_point 0 0, axis_point 1 10, axis_point 2 20, axis_point 0 0] 15 False
              = Some (4, js, 40, ds))"
proof -
  let ?s = "[axis_point 0 0, axis_point 1 10, axis_point 2 20]"
  let ?r = "[axis_point 0 0, axis_point 1 10, axis_point 2 20, axis_point 0 0]"
  have len: "2 \<le> length ?s" by simp
  have run: "solve ident ?s 15 True False = Some (?r, [1, 1, 2, 2], 4, 40, [10, 10, 20, 20])"
    using nearest_neighbor_example [of ident] two_opt_loop_example
    by (simp add: solve_def jumps_to_def)
  from solve_loop_closes [OF len, of 15 ident False, THEN conjunct2, rule_format, OF run]
  have "last ?r = hd ?s" and "\<exists>js ds. total_cost ?r 15 False = Some (4, js, 40, ds)"
    by blast+
  with len run show ?thesis by blast
qed

text \<open>
  C3. With \<^verbatim>\<open>loop_back\<close> true, at least two input points and a refined route \<open>p\<close> that is
  not closed (its first and last element differ), the two per-leg lists that \<^verbatim>\<open>solve\<close>
  returns end with the closing leg twice: the lists of the open route \<open>p\<close>, then the
  hops \<open>jc\<close> (the distance) of the leg from the last element of \<open>p\<close> to its first, put
  there by \<^verbatim>\<open>total_cost\<close> in loop mode, then the same value again, put there by \<^verbatim>\<open>solve\<close>.
  Each list has one entry more than the closed route has legs (the closed route has
  \<open>length p\<close> legs). The returned totals hold the closing leg once.
\<close>

theorem solve_loop_closing_leg_twice:
  assumes "2 \<le> length systems"
    and "nearest_neighbor slot systems (hd systems) None rng = Some p0"
    and "two_opt p0 rng True = Some (p, js, tj, tly, ds)"
    and "hd p \<noteq> last p"
  shows "\<exists>tjo jo tlyo dso jc.
           total_cost p rng False = Some (tjo, jo, tlyo, dso) \<and>
           jumps_to (last p) (hd p) rng = Some jc \<and>
           solve slot systems rng True final_is_last
             = Some (p @ [hd p], jo @ [jc, jc], tjo + jc,
                     tlyo + distance_to (last p) (hd p),
                     dso @ [distance_to (last p) (hd p), distance_to (last p) (hd p)]) \<and>
           length (p @ [hd p]) - 1 = length p \<and>
           length (jo @ [jc, jc]) = length p + 1 \<and>
           length (dso @ [distance_to (last p) (hd p), distance_to (last p) (hd p)])
             = length p + 1"
proof -
  have cost: "total_cost p rng True = Some (tj, js, tly, ds)"
    by (rule two_opt_SomeD(1) [OF assms(3)])
  from nearest_neighbor_start [OF assms(2)] two_opt_SomeD(2) [OF assms(3)] have "p \<noteq> []"
    by auto
  with assms(4) have len: "2 \<le> length p"
    by (simp add: open_route_length)
  from total_cost_loop_split [OF len cost] obtain tjo jo tlyo dso jc where
    op: "total_cost p rng False = Some (tjo, jo, tlyo, dso)" and
    jc: "jumps_to (last p) (hd p) rng = Some jc" and
    parts: "tj = tjo + jc" "js = jo @ [jc]" "tly = tlyo + distance_to (last p) (hd p)"
      "ds = dso @ [distance_to (last p) (hd p)]"
    by blast
  from len have ne: "p \<noteq> []" by auto
  then have idx: "(p @ [hd p]) ! (length (p @ [hd p]) - 2) = last p"
    "(p @ [hd p]) ! (length p - Suc 0) = last p" "hd (p @ [hd p]) = hd p"
    by (simp_all add: nth_append last_conv_nth)
  have run: "solve slot systems rng True final_is_last
               = Some (p @ [hd p], js @ [jc], tj, tly, ds @ [distance_to (last p) (hd p)])"
    using assms jc idx by (simp add: solve_def Let_def)
  from total_cost_length [OF op] len have
    "length jo = length p - 1" and "length dso = length p - 1"
    by simp_all
  with len op jc run parts show ?thesis
    by auto
qed

theorem solve_loop_closing_leg_twice_witness:
  "2 \<le> length [axis_point 0 0, axis_point 1 10, axis_point 2 20] \<and>
   nearest_neighbor ident [axis_point 0 0, axis_point 1 10, axis_point 2 20]
       (hd [axis_point 0 0, axis_point 1 10, axis_point 2 20]) None 15
     = Some [axis_point 0 0, axis_point 1 10, axis_point 2 20] \<and>
   two_opt [axis_point 0 0, axis_point 1 10, axis_point 2 20] 15 True
     = Some ([axis_point 0 0, axis_point 1 10, axis_point 2 20], [1, 1, 2], 4, 40, [10, 10, 20]) \<and>
   hd [axis_point 0 0, axis_point 1 10, axis_point 2 20]
     \<noteq> last [axis_point 0 0, axis_point 1 10, axis_point 2 20] \<and>
   solve ident [axis_point 0 0, axis_point 1 10, axis_point 2 20] 15 True True
     = Some ([axis_point 0 0, axis_point 1 10, axis_point 2 20, axis_point 0 0],
             [1, 1] @ [2, 2], 2 + 2, 20 + 20, [10, 10] @ [20, 20])"
proof -
  let ?s = "[axis_point 0 0, axis_point 1 10, axis_point 2 20]"
  have len: "2 \<le> length ?s" by simp
  have nn: "nearest_neighbor ident ?s (hd ?s) None 15 = Some ?s"
    using nearest_neighbor_example [of ident] by simp
  have opt: "two_opt ?s 15 True = Some (?s, [1, 1, 2], 4, 40, [10, 10, 20])"
    by (rule two_opt_loop_example)
  have op: "hd ?s \<noteq> last ?s" by simp
  have c: "total_cost ?s 15 False = Some (2, [1, 1], 20, [10, 10])"
    by (simp add: total_cost_def jumps_to_def)
  have j: "jumps_to (last ?s) (hd ?s) 15 = Some 2"
    by (simp add: jumps_to_def)
  have d: "distance_to (last ?s) (hd ?s) = 20"
    by simp
  from solve_loop_closing_leg_twice [OF len nn opt op, of True]
  obtain tjo jo tlyo dso jc where
    "total_cost ?s 15 False = Some (tjo, jo, tlyo, dso)" and
    "jumps_to (last ?s) (hd ?s) 15 = Some jc" and
    "solve ident ?s 15 True True
       = Some (?s @ [hd ?s], jo @ [jc, jc], tjo + jc, tlyo + distance_to (last ?s) (hd ?s),
               dso @ [distance_to (last ?s) (hd ?s), distance_to (last ?s) (hd ?s)])"
    by blast
  with c j d have "solve ident ?s 15 True True
       = Some (?s @ [hd ?s], [1, 1] @ [2, 2], 2 + 2, 20 + 20, [10, 10] @ [20, 20])"
    by simp
  with len nn opt op show ?thesis by simp
qed

subsection \<open>The search order of \<^verbatim>\<open>two_opt\<close>\<close>

text \<open>
  C2, as amended. For every input route, range and loop flag, \<^verbatim>\<open>two_opt\<close> is the search
  with restart after a whole row: an improving reversal is applied as soon as it is
  found, and the inner loop then runs on to the end of the current row \<open>i\<close>, trying
  every further \<open>k\<close> on the route improved so far, so that one row can apply several
  reversals; the loop over \<open>i\<close> is abandoned only at the end of the first row in which a
  reversal was applied, and a fresh pass begins from the improved route; the passes
  repeat until a full pass finds no improving move. The two searches agree on every
  input, in the route, the per-leg lists and the totals they return, and in raising.
\<close>

theorem two_opt_scan_policy:
  "two_opt path rng loop = two_opt_row_restart path rng loop"
proof (cases "total_cost path rng loop")
  case None
  then show ?thesis
    by (simp add: two_opt_def two_opt_row_restart_def)
next
  case (Some c)
  obtain bj bjs bly bds where c: "c = (bj, bjs, bly, bds)"
    by (cases c)
  let ?s1 = "\<lparr>best = path, best_j = bj, best_ly = bly, improved = True\<rparr>"
  let ?s0 = "\<lparr>best = path, best_j = bj, best_ly = bly, improved = False\<rparr>"
  have "while_improved rng loop (length path) ?s1 = row_restart_search rng loop (length path) ?s1"
    by (rule while_improved_row_restart) simp
  also have "\<dots> = row_restart_search rng loop (length path) ?s0"
    using row_restart_search_flag [where st = ?s0 and b = True] by simp
  finally show ?thesis
    using Some c by (simp add: two_opt_def two_opt_row_restart_def)
qed

theorem two_opt_scan_policy_witness:
  "two_opt [axis_point 0 0, axis_point 1 (-3), axis_point 2 2, axis_point 3 (-1),
            axis_point 4 (-2), axis_point 5 1] 1 False
     = Some ([axis_point 0 0, axis_point 5 1, axis_point 2 2, axis_point 3 (-1),
              axis_point 1 (-3), axis_point 4 (-2)], [1, 1, 3, 2, 1], 8, 8, [1, 1, 3, 2, 1]) \<and>
   two_opt_row_restart [axis_point 0 0, axis_point 1 (-3), axis_point 2 2, axis_point 3 (-1),
            axis_point 4 (-2), axis_point 5 1] 1 False
     = Some ([axis_point 0 0, axis_point 5 1, axis_point 2 2, axis_point 3 (-1),
              axis_point 1 (-3), axis_point 4 (-2)], [1, 1, 3, 2, 1], 8, 8, [1, 1, 3, 2, 1])"
proof
  show run: "two_opt [axis_point 0 0, axis_point 1 (-3), axis_point 2 2, axis_point 3 (-1),
            axis_point 4 (-2), axis_point 5 1] 1 False
     = Some ([axis_point 0 0, axis_point 5 1, axis_point 2 2, axis_point 3 (-1),
              axis_point 1 (-3), axis_point 4 (-2)], [1, 1, 3, 2, 1], 8, 8, [1, 1, 3, 2, 1])"
    by (rule two_opt_six_points)
  show "two_opt_row_restart [axis_point 0 0, axis_point 1 (-3), axis_point 2 2, axis_point 3 (-1),
            axis_point 4 (-2), axis_point 5 1] 1 False
     = Some ([axis_point 0 0, axis_point 5 1, axis_point 2 2, axis_point 3 (-1),
              axis_point 1 (-3), axis_point 4 (-2)], [1, 1, 3, 2, 1], 8, 8, [1, 1, 3, 2, 1])"
    by (rule trans [OF two_opt_scan_policy [symmetric] run])
qed

text \<open>
  The claim as stated has both loops abandoned at the first accepted reversal. On the
  route \<open>0, -3, 2, -1, -2, 1\<close> of the x axis with range 1, without loop mode, the two
  searches end in different routes: \<^verbatim>\<open>two_opt\<close> returns \<open>0, 1, 2, -1, -3, -2\<close> with 8 hops,
  first improvement with restart returns \<open>0, -1, -2, -3, 2, 1\<close> with 9 hops.
\<close>

theorem two_opt_first_improvement_counterexample:
  "two_opt [axis_point 0 0, axis_point 1 (-3), axis_point 2 2, axis_point 3 (-1),
            axis_point 4 (-2), axis_point 5 1] 1 False
     = Some ([axis_point 0 0, axis_point 5 1, axis_point 2 2, axis_point 3 (-1),
              axis_point 1 (-3), axis_point 4 (-2)], [1, 1, 3, 2, 1], 8, 8, [1, 1, 3, 2, 1]) \<and>
   two_opt_first_improvement [axis_point 0 0, axis_point 1 (-3), axis_point 2 2,
            axis_point 3 (-1), axis_point 4 (-2), axis_point 5 1] 1 False
     = Some ([axis_point 0 0, axis_point 3 (-1), axis_point 4 (-2), axis_point 1 (-3),
              axis_point 2 2, axis_point 5 1], [1, 1, 1, 5, 1], 9, 9, [1, 1, 1, 5, 1]) \<and>
   two_opt [axis_point 0 0, axis_point 1 (-3), axis_point 2 2, axis_point 3 (-1),
            axis_point 4 (-2), axis_point 5 1] 1 False
     \<noteq> two_opt_first_improvement [axis_point 0 0, axis_point 1 (-3), axis_point 2 2,
            axis_point 3 (-1), axis_point 4 (-2), axis_point 5 1] 1 False"
  using two_opt_six_points two_opt_first_improvement_six_points by simp

end
